theory Spec2Isabelle
  imports Main
begin

section \<open>The useAsyncTask controller (src/index.ts)\<close>

text \<open>
  The hook of \<^verbatim>\<open>src/index.ts\<close> keeps three cells: the status given to
  \<^verbatim>\<open>useState\<close>, the counter \<^verbatim>\<open>invocationRef\<close> and the callback cell
  \<^verbatim>\<open>callbacksRef\<close>. The model is a record of these cells, extended by the promise
  chains that \<^verbatim>\<open>run\<close> has attached and that have not yet reacted, and by the trace
  of the effects performed so far, in order: the call of the task function, every
  \<^verbatim>\<open>setStatus\<close>, every call of a user callback and every \<^verbatim>\<open>console.error\<close>.

  Scope of the model.
  \<^item> The counter is a natural number; JavaScript numbers are exact integers below
    \<open>2^53\<close>, a bound that no realistic run of the hook reaches.
  \<^item> A user callback is an opaque label of type \<open>'c\<close>; calling it is recorded in
    the trace. User code is taken not to call \<^verbatim>\<open>run\<close> or \<^verbatim>\<open>cancel\<close> itself
    while it executes.
  \<^item> An exception of user code is followed wherever the source catches it: the task
    function may throw inside the \<^verbatim>\<open>try\<close> block of \<^verbatim>\<open>run\<close>, and \<open>onComplete\<close>
    and \<open>onFinally\<close> may throw inside the \<^verbatim>\<open>.then\<close> handler, behind which
    \<^verbatim>\<open>.catch\<close> is chained. An exception of \<open>onStart\<close> or of \<open>onError\<close> would
    leave the hook (to the caller of \<^verbatim>\<open>run\<close>, or as the rejection of the last
    promise of the chain); these two callbacks are taken to return normally. An
    exception of \<open>onFinally\<close> inside the \<^verbatim>\<open>.catch\<close> handler leaves the hook after
    the handler's last statement and changes nothing in the state.
  \<^item> A promise resolves to a value of type \<open>'r option\<close>, where \<open>None\<close> stands for
    \<^verbatim>\<open>null\<close> and \<^verbatim>\<open>undefined\<close>.
\<close>

subsection \<open>Data\<close>

datatype js_error = Error (error_name: string) (error_message: string)

record 'r status =
  isRunning :: bool
  result :: "'r option"
  error :: "js_error option"

record 'c callbacks =
  onStart :: "'c option"
  onComplete :: "'c option"
  onError :: "'c option"
  onFinally :: "'c option"

text \<open>The way a promise settles, and a promise as the task function hands it over.\<close>

datatype 'r settlement = Fulfilled "'r option" | Rejected js_error

datatype 'r promise = Pending | Settled "'r settlement"

text \<open>
  What one call \<^verbatim>\<open>func.apply(thisArg, args)\<close> does: it throws, or returns one of the
  values of type \<^verbatim>\<open>Falsy\<close>, or returns a promise.
\<close>

datatype 'r func_return = Throws js_error | ReturnsFalsy | ReturnsPromise "'r promise"

text \<open>
  The task function sees \<^verbatim>\<open>this.invocation\<close> and its arguments.
\<close>

type_synonym ('a, 'r) TaskFunction = "nat \<Rightarrow> 'a list \<Rightarrow> 'r func_return"

datatype ('a, 'r, 'c) event =
    FuncApply nat "'a list"
  | SetStatus "'r status"
  | OnStart 'c
  | OnComplete 'c "'r option"
  | OnError 'c js_error
  | OnFinally 'c
  | ConsoleError js_error

text \<open>
  A chain is the \<^verbatim>\<open>promise.then(...).catch(...)\<close> that one call of \<^verbatim>\<open>run\<close>
  attaches: the handlers close over \<^verbatim>\<open>invocation\<close> and \<^verbatim>\<open>leaveRunning\<close>.
\<close>

type_synonym 'r chain = "nat \<times> bool option \<times> 'r promise"

record ('a, 'r, 'c) controller =
  status :: "'r status"
  invocationRef :: nat
  callbacksRef :: "'c callbacks"
  attached :: "'r chain list"
  trace :: "('a, 'r, 'c) event list"

subsection \<open>Operations\<close>

text \<open>The coercion \<^verbatim>\<open>!!x\<close> of an optional boolean.\<close>

fun truthy :: "bool option \<Rightarrow> bool" where
  "truthy None = False"
| "truthy (Some b) = b"

text \<open>The first render: \<^verbatim>\<open>useState\<close>, \<^verbatim>\<open>useRef(0)\<close>, \<^verbatim>\<open>useRef({onStart, ...})\<close>.\<close>

definition useAsyncTask :: "bool option \<Rightarrow> 'c callbacks \<Rightarrow> ('a, 'r, 'c) controller" where
  "useAsyncTask runOnMount cbs =
     \<lparr> status = \<lparr> isRunning = truthy runOnMount, result = None, error = None \<rparr>,
       invocationRef = 0,
       callbacksRef = cbs,
       attached = [],
       trace = [] \<rparr>"

definition emit :: "('a, 'r, 'c) event list \<Rightarrow> ('a, 'r, 'c) controller \<Rightarrow> ('a, 'r, 'c) controller" where
  "emit evs s = s\<lparr> trace := trace s @ evs \<rparr>"

definition setStatus :: "'r status \<Rightarrow> ('a, 'r, 'c) controller \<Rightarrow> ('a, 'r, 'c) controller" where
  "setStatus st s = emit [SetStatus st] (s\<lparr> status := st \<rparr>)"

text \<open>An optional call \<^verbatim>\<open>callbacksRef.current.cb?.(...)\<close>.\<close>

definition calls :: "'c option \<Rightarrow> ('c \<Rightarrow> 'e) \<Rightarrow> 'e list" where
  "calls cb ev = (case cb of None \<Rightarrow> [] | Some c \<Rightarrow> [ev c])"

definition call_opt :: "'c option \<Rightarrow> ('c \<Rightarrow> ('a, 'r, 'c) event) \<Rightarrow> ('a, 'r, 'c) controller
    \<Rightarrow> ('a, 'r, 'c) controller" where
  "call_opt cb ev s = emit (calls cb ev) s"

text \<open>
  The body of the \<^verbatim>\<open>try\<close> block of \<^verbatim>\<open>run\<close>, given what the call of the task function
  did: \<open>Inl\<close> is the exception that leaves the block.
\<close>

definition try_block :: "'r func_return \<Rightarrow> js_error + 'r promise" where
  "try_block promiseMaybe =
     (case promiseMaybe of
        Throws e \<Rightarrow> Inl e
      | ReturnsFalsy \<Rightarrow> Inl (Error ''Error'' ''Task function did not return a Promise!'')
      | ReturnsPromise p \<Rightarrow> Inr p)"

text \<open>The \<^verbatim>\<open>catch\<close> clause: \<^verbatim>\<open>new Promise((_, reject) => reject(error))\<close>.\<close>

definition try_catch :: "'r func_return \<Rightarrow> 'r promise" where
  "try_catch promiseMaybe =
     (case try_block promiseMaybe of
        Inl e \<Rightarrow> Settled (Rejected e)
      | Inr p \<Rightarrow> p)"

definition run :: "('a, 'r) TaskFunction \<Rightarrow> bool option \<Rightarrow> 'a list
    \<Rightarrow> ('a, 'r, 'c) controller \<Rightarrow> ('a, 'r, 'c) controller" where
  "run func leaveRunning args s =
     (let s1 = s\<lparr> invocationRef := invocationRef s + 1 \<rparr>;
          invocation = invocationRef s1;
          s2 = emit [FuncApply invocation args] s1;
          promise = try_catch (func invocation args);
          s3 = setStatus \<lparr> isRunning = True, result = None, error = None \<rparr> s2;
          s4 = call_opt (onStart (callbacksRef s3)) OnStart s3
      in s4\<lparr> attached := attached s4 @ [(invocation, leaveRunning, promise)] \<rparr>)"

definition cancel :: "('a, 'r, 'c) controller \<Rightarrow> ('a, 'r, 'c) controller" where
  "cancel s =
     setStatus \<lparr> isRunning = False, result = None, error = None \<rparr>
       (s\<lparr> invocationRef := invocationRef s + 1 \<rparr>)"

text \<open>The closure \<^verbatim>\<open>isCanceled\<close> of an invocation, read in a state.\<close>

definition isCanceled :: "nat \<Rightarrow> ('a, 'r, 'c) controller \<Rightarrow> bool" where
  "isCanceled invocation s = (invocationRef s > invocation)"

text \<open>The effect that runs after every render and refreshes \<^verbatim>\<open>callbacksRef\<close>.\<close>

definition refresh_callbacks :: "'c callbacks \<Rightarrow> ('a, 'r, 'c) controller \<Rightarrow> ('a, 'r, 'c) controller" where
  "refresh_callbacks cbs s = s\<lparr> callbacksRef := cbs \<rparr>"

text \<open>The handler given to \<^verbatim>\<open>.then\<close>, when the callbacks that it calls return.\<close>

definition then_handler :: "nat \<Rightarrow> bool option \<Rightarrow> 'r option
    \<Rightarrow> ('a, 'r, 'c) controller \<Rightarrow> ('a, 'r, 'c) controller" where
  "then_handler invocation leaveRunning res s =
     (if invocationRef s > invocation then s
      else
        let s1 = setStatus \<lparr> isRunning = truthy leaveRunning, result = res, error = None \<rparr> s;
            s2 = call_opt (onComplete (callbacksRef s1)) (\<lambda>c. OnComplete c res) s1
        in call_opt (onFinally (callbacksRef s2)) OnFinally s2)"

text \<open>The handler given to \<^verbatim>\<open>.catch\<close>.\<close>

definition catch_handler :: "nat \<Rightarrow> js_error
    \<Rightarrow> ('a, 'r, 'c) controller \<Rightarrow> ('a, 'r, 'c) controller" where
  "catch_handler invocation err s =
     (let s0 = emit [ConsoleError err] s
      in if invocationRef s0 > invocation then s0
         else
           let s1 = setStatus \<lparr> isRunning = False, result = None, error = Some err \<rparr> s0;
               s2 = call_opt (onError (callbacksRef s1)) (\<lambda>c. OnError c err) s1
           in call_opt (onFinally (callbacksRef s2)) OnFinally s2)"

text \<open>
  The handler given to \<^verbatim>\<open>.then\<close>, when a callback that it calls throws: the
  handler stops at that call. \<open>None\<close> says that this cannot happen: a superseded
  invocation returns before it calls anything, and a callback that is not configured
  is not called.
\<close>

datatype thrower = ByOnComplete | ByOnFinally

definition then_handler_throws :: "nat \<Rightarrow> bool option \<Rightarrow> 'r option \<Rightarrow> thrower
    \<Rightarrow> ('a, 'r, 'c) controller \<Rightarrow> ('a, 'r, 'c) controller option" where
  "then_handler_throws invocation leaveRunning res who s =
     (if invocationRef s > invocation then None
      else
        let s1 = setStatus \<lparr> isRunning = truthy leaveRunning, result = res, error = None \<rparr> s
        in case who of
             ByOnComplete \<Rightarrow>
               (case onComplete (callbacksRef s1) of
                  None \<Rightarrow> None
                | Some c \<Rightarrow> Some (emit [OnComplete c res] s1))
           | ByOnFinally \<Rightarrow>
               (let s2 = call_opt (onComplete (callbacksRef s1)) (\<lambda>c. OnComplete c res) s1
                in case onFinally (callbacksRef s2) of
                     None \<Rightarrow> None
                   | Some c \<Rightarrow> Some (emit [OnFinally c] s2)))"

text \<open>
  The chain is \<^verbatim>\<open>promise.then(A).catch(B)\<close>: \<^verbatim>\<open>.catch\<close> is attached to the promise
  that \<^verbatim>\<open>.then\<close> returns.
  \<^item> When \<^verbatim>\<open>promise\<close> is rejected, \<^verbatim>\<open>A\<close> is skipped and \<^verbatim>\<open>B\<close> reacts to the
    rejection.
  \<^item> When \<^verbatim>\<open>promise\<close> is fulfilled and \<^verbatim>\<open>A\<close> returns, \<^verbatim>\<open>B\<close> has nothing to
    catch. These two reactions are \<open>react\<close>; after them the chain is done.
  \<^item> When \<^verbatim>\<open>promise\<close> is fulfilled and a callback called by \<^verbatim>\<open>A\<close> throws, \<^verbatim>\<open>A\<close>
    stops there and the promise that \<^verbatim>\<open>.then\<close> returned is rejected with the
    exception. This is \<open>settle_throws\<close> below: the chain stays attached, now with a
    promise rejected with that exception, and \<^verbatim>\<open>B\<close> reacts to it in a later job of
    the event loop, as to any rejection.
\<close>

fun react :: "nat \<Rightarrow> bool option \<Rightarrow> 'r settlement
    \<Rightarrow> ('a, 'r, 'c) controller \<Rightarrow> ('a, 'r, 'c) controller" where
  "react invocation leaveRunning (Fulfilled res) s = then_handler invocation leaveRunning res s"
| "react invocation leaveRunning (Rejected err) s = catch_handler invocation err s"

text \<open>
  The event loop delivers the settlement \<open>out\<close> to the chain of invocation \<open>k\<close>. This
  is possible when that chain is attached and has not reacted yet, and its promise
  is still pending or has settled in just this way. The chain reacts once.
\<close>

definition settle :: "nat \<Rightarrow> 'r settlement \<Rightarrow> ('a, 'r, 'c) controller
    \<Rightarrow> ('a, 'r, 'c) controller option" where
  "settle k out s =
     (case map_of (attached s) k of
        None \<Rightarrow> None
      | Some (leaveRunning, p) \<Rightarrow>
          if p = Pending \<or> p = Settled out
          then Some (react k leaveRunning out (s\<lparr> attached := filter (\<lambda>c. fst c \<noteq> k) (attached s) \<rparr>))
          else None)"

text \<open>
  The event loop delivers the fulfilment \<open>res\<close> to the chain of invocation \<open>k\<close>, and
  the callback \<open>who\<close> throws \<open>err\<close> inside the \<^verbatim>\<open>.then\<close> handler. What is left of
  the chain is \<^verbatim>\<open>.catch(B)\<close> on a promise rejected with \<open>err\<close>.
\<close>

definition reject_chain :: "nat \<Rightarrow> js_error \<Rightarrow> 'r chain \<Rightarrow> 'r chain" where
  "reject_chain k err c = (if fst c = k then (fst c, fst (snd c), Settled (Rejected err)) else c)"

definition settle_throws :: "nat \<Rightarrow> 'r option \<Rightarrow> thrower \<Rightarrow> js_error
    \<Rightarrow> ('a, 'r, 'c) controller \<Rightarrow> ('a, 'r, 'c) controller option" where
  "settle_throws k res who err s =
     (case map_of (attached s) k of
        None \<Rightarrow> None
      | Some (leaveRunning, p) \<Rightarrow>
          if p = Pending \<or> p = Settled (Fulfilled res)
          then (case then_handler_throws k leaveRunning res who s of
                  None \<Rightarrow> None
                | Some s1 \<Rightarrow>
                    Some (s1\<lparr> attached := map (reject_chain k err) (attached s1) \<rparr>))
          else None)"


definition unmount :: "('a, 'r, 'c) controller \<Rightarrow> ('a, 'r, 'c) controller" where
  "unmount s = cancel s"

subsection \<open>Histories\<close>

text \<open>
  What can happen to a mounted controller: the host calls \<^verbatim>\<open>run\<close> (through the
  closure of some render, which fixes \<^verbatim>\<open>func\<close> and \<^verbatim>\<open>leaveRunning\<close>) or
  \<^verbatim>\<open>cancel\<close>, it renders again with new callbacks, or a promise settles; when it
  is fulfilled, the callbacks of the \<^verbatim>\<open>.then\<close> handler return (\<open>Settle\<close>) or one of
  them throws (\<open>SettleThrows\<close>).
\<close>

datatype ('a, 'r, 'c) action =
    Run "('a, 'r) TaskFunction" "bool option" "'a list"
  | Cancel
  | Render "'c callbacks"
  | Settle nat "'r settlement"
  | SettleThrows nat "'r option" thrower js_error

fun step :: "('a, 'r, 'c) action \<Rightarrow> ('a, 'r, 'c) controller \<Rightarrow> ('a, 'r, 'c) controller option" where
  "step (Run func leaveRunning args) s = Some (run func leaveRunning args s)"
| "step Cancel s = Some (cancel s)"
| "step (Render cbs) s = Some (refresh_callbacks cbs s)"
| "step (Settle k out) s = settle k out s"
| "step (SettleThrows k res who err) s = settle_throws k res who err s"

fun exec :: "('a, 'r, 'c) action list \<Rightarrow> ('a, 'r, 'c) controller \<Rightarrow> ('a, 'r, 'c) controller option" where
  "exec [] s = Some s"
| "exec (a # as) s = (case step a s of None \<Rightarrow> None | Some s' \<Rightarrow> exec as s')"

subsection \<open>Vocabulary of the properties\<close>

text \<open>
  \<open>precedes a b tr\<close>: the event \<open>a\<close> occurs in \<open>tr\<close>, and \<open>b\<close> occurs after its
  first occurrence.
\<close>

fun precedes :: "'e \<Rightarrow> 'e \<Rightarrow> 'e list \<Rightarrow> bool" where
  "precedes a b [] = False"
| "precedes a b (x # xs) = (if x = a then b \<in> set xs else precedes a b xs)"

definition running_status :: "'r status" where
  "running_status = \<lparr> isRunning = True, result = None, error = None \<rparr>"

definition reset_status :: "'r status" where
  "reset_status = \<lparr> isRunning = False, result = None, error = None \<rparr>"

text \<open>
  The trace without the diagnostic log: the status commits and the calls of user code.
\<close>

fun is_log :: "('a, 'r, 'c) event \<Rightarrow> bool" where
  "is_log (ConsoleError e) = True"
| "is_log _ = False"

definition visible :: "('a, 'r, 'c) event list \<Rightarrow> ('a, 'r, 'c) event list" where
  "visible tr = filter (\<lambda>e. \<not> is_log e) tr"

text \<open>A schedule of settlements, as a history.\<close>

definition settles :: "(nat \<times> 'r settlement) list \<Rightarrow> ('a, 'r, 'c) action list" where
  "settles ds = map (\<lambda>(k, out). Settle k out) ds"

text \<open>
  The chain that an action delivers to, when it is a delivery: a settlement with
  callbacks that return, or a fulfilment with a callback that throws.
\<close>

fun chain_of :: "('a, 'r, 'c) action \<Rightarrow> nat option" where
  "chain_of (Settle k out) = Some k"
| "chain_of (SettleThrows k res who err) = Some k"
| "chain_of a = None"

text \<open>
  Two states with the same status, the same visible trace, the same counter and
  callbacks, and the same chain of the latest generation.
\<close>

definition same_visible :: "('a, 'r, 'c) controller \<Rightarrow> ('a, 'r, 'c) controller \<Rightarrow> bool" where
  "same_visible s t \<longleftrightarrow>
     status s = status t \<and> visible (trace s) = visible (trace t)
     \<and> invocationRef s = invocationRef t \<and> callbacksRef s = callbacksRef t
     \<and> map_of (attached s) (invocationRef s) = map_of (attached t) (invocationRef t)"

text \<open>A promise that is rejected; such a promise does not change any more.\<close>

fun rejected :: "'r promise \<Rightarrow> bool" where
  "rejected (Settled (Rejected e)) = True"
| "rejected p = False"

text \<open>Every attached chain belongs to a generation that has been handed out.\<close>

definition wf :: "('a, 'r, 'c) controller \<Rightarrow> bool" where
  "wf s = (\<forall>k \<in> set (map fst (attached s)). k \<le> invocationRef s)"

text \<open>The callbacks of the last render of a history, or the given ones if it has none.\<close>

fun latest_callbacks :: "('a, 'r, 'c) action list \<Rightarrow> 'c callbacks \<Rightarrow> 'c callbacks" where
  "latest_callbacks [] cbs = cbs"
| "latest_callbacks (Render cbs' # as) cbs = latest_callbacks as cbs'"
| "latest_callbacks (a # as) cbs = latest_callbacks as cbs"

text \<open>
  The operations that take a new generation, and the values that the counter takes
  after each of them in a history.
\<close>

fun advances :: "('a, 'r, 'c) action \<Rightarrow> bool" where
  "advances (Run func leaveRunning args) = True"
| "advances Cancel = True"
| "advances a = False"

fun counter_values :: "('a, 'r, 'c) action list \<Rightarrow> ('a, 'r, 'c) controller \<Rightarrow> nat list" where
  "counter_values [] s = []"
| "counter_values (a # as) s =
     (case step a s of
        None \<Rightarrow> []
      | Some s' \<Rightarrow> (if advances a then [invocationRef s'] else []) @ counter_values as s')"

text \<open>The values of \<^verbatim>\<open>this.invocation\<close> that the task function was called with.\<close>

fun invocations :: "('a, 'r, 'c) event list \<Rightarrow> nat list" where
  "invocations [] = []"
| "invocations (FuncApply k args # tr) = k # invocations tr"
| "invocations (e # tr) = invocations tr"

text \<open>Two states that no observer of status, effects, counter and callbacks can tell apart.\<close>

definition same_observable :: "('a, 'r, 'c) controller \<Rightarrow> ('a, 'r, 'c) controller \<Rightarrow> bool" where
  "same_observable s t \<longleftrightarrow>
     status s = status t \<and> trace s = trace t
     \<and> invocationRef s = invocationRef t \<and> callbacksRef s = callbacksRef t"

text \<open>
  The chain of invocation \<open>k\<close> with a pending promise, once that promise is known to
  reject with \<open>e\<close>; every other chain as it is.
\<close>

definition reject_pending :: "nat \<Rightarrow> js_error \<Rightarrow> 'r chain \<Rightarrow> 'r chain" where
  "reject_pending k e c =
     (if fst c = k \<and> snd (snd c) = Pending then (fst c, fst (snd c), Settled (Rejected e)) else c)"

text \<open>
  The states of two controllers that differ only in that the promise of invocation
  \<open>k\<close> is already rejected with \<open>e\<close> in the first and may still be pending in the second.
\<close>

definition sim :: "nat \<Rightarrow> js_error \<Rightarrow> ('a, 'r, 'c) controller \<Rightarrow> ('a, 'r, 'c) controller \<Rightarrow> bool" where
  "sim k e t u \<longleftrightarrow>
     same_observable t u
     \<and> attached t = map (reject_pending k e) (attached u)
     \<and> k \<le> invocationRef u"

subsection \<open>Sample inputs\<close>

text \<open>
  A task function that does the same at every call; two sets of callbacks; task
  functions that return a pending promise, return a falsy value, or throw; a
  controller right after its first render.
\<close>

definition constant_task :: "'r func_return \<Rightarrow> ('a, 'r) TaskFunction" where
  "constant_task r invocation args = r"

definition callbacks_A :: "string callbacks" where
  "callbacks_A = \<lparr> onStart = Some ''startA'', onComplete = Some ''completeA'',
     onError = Some ''errorA'', onFinally = Some ''finallyA'' \<rparr>"

definition callbacks_B :: "string callbacks" where
  "callbacks_B = \<lparr> onStart = Some ''startB'', onComplete = Some ''completeB'',
     onError = Some ''errorB'', onFinally = Some ''finallyB'' \<rparr>"

definition pending_task :: "(nat, string) TaskFunction" where
  "pending_task = constant_task (ReturnsPromise Pending)"

definition falsy_task :: "(nat, string) TaskFunction" where
  "falsy_task = constant_task ReturnsFalsy"

definition throwing_task :: "(nat, string) TaskFunction" where
  "throwing_task = constant_task (Throws (Error ''TypeError'' ''boom''))"

definition init_A :: "(nat, string, string) controller" where
  "init_A = useAsyncTask None callbacks_A"

section \<open>Properties\<close>

subsection \<open>The fields after each operation\<close>

lemma emit_fields [simp]:
  "status (emit evs s) = status s"
  "invocationRef (emit evs s) = invocationRef s"
  "callbacksRef (emit evs s) = callbacksRef s"
  "attached (emit evs s) = attached s"
  "trace (emit evs s) = trace s @ evs"
  by (simp_all add: emit_def)

lemma setStatus_fields [simp]:
  "status (setStatus st s) = st"
  "invocationRef (setStatus st s) = invocationRef s"
  "callbacksRef (setStatus st s) = callbacksRef s"
  "attached (setStatus st s) = attached s"
  "trace (setStatus st s) = trace s @ [SetStatus st]"
  by (simp_all add: setStatus_def)

lemma call_opt_fields [simp]:
  "status (call_opt cb ev s) = status s"
  "invocationRef (call_opt cb ev s) = invocationRef s"
  "callbacksRef (call_opt cb ev s) = callbacksRef s"
  "attached (call_opt cb ev s) = attached s"
  "trace (call_opt cb ev s) = trace s @ calls cb ev"
  by (simp_all add: call_opt_def)

lemma calls_simps [simp]:
  "calls None ev = []"
  "calls (Some c) ev = [ev c]"
  by (simp_all add: calls_def)

lemma run_fields:
  "status (run func leaveRunning args s) = running_status"
  "invocationRef (run func leaveRunning args s) = invocationRef s + 1"
  "callbacksRef (run func leaveRunning args s) = callbacksRef s"
  "attached (run func leaveRunning args s) =
     attached s @ [(invocationRef s + 1, leaveRunning, try_catch (func (invocationRef s + 1) args))]"
  "trace (run func leaveRunning args s) =
     trace s @ [FuncApply (invocationRef s + 1) args, SetStatus running_status]
       @ calls (onStart (callbacksRef s)) OnStart"
  by (simp_all add: run_def Let_def running_status_def)

lemma cancel_fields:
  "status (cancel s) = reset_status"
  "invocationRef (cancel s) = invocationRef s + 1"
  "callbacksRef (cancel s) = callbacksRef s"
  "attached (cancel s) = attached s"
  "trace (cancel s) = trace s @ [SetStatus reset_status]"
  by (simp_all add: cancel_def reset_status_def)

lemma refresh_callbacks_fields:
  "status (refresh_callbacks cbs s) = status s"
  "invocationRef (refresh_callbacks cbs s) = invocationRef s"
  "callbacksRef (refresh_callbacks cbs s) = cbs"
  "attached (refresh_callbacks cbs s) = attached s"
  "trace (refresh_callbacks cbs s) = trace s"
  by (simp_all add: refresh_callbacks_def)

lemma then_handler_fields:
  "status (then_handler k lr res s) =
     (if invocationRef s > k then status s
      else \<lparr> isRunning = truthy lr, result = res, error = None \<rparr>)"
  "invocationRef (then_handler k lr res s) = invocationRef s"
  "callbacksRef (then_handler k lr res s) = callbacksRef s"
  "attached (then_handler k lr res s) = attached s"
  "trace (then_handler k lr res s) =
     trace s @
     (if invocationRef s > k then []
      else SetStatus \<lparr> isRunning = truthy lr, result = res, error = None \<rparr>
           # calls (onComplete (callbacksRef s)) (\<lambda>c. OnComplete c res)
           @ calls (onFinally (callbacksRef s)) OnFinally)"
  by (simp_all add: then_handler_def Let_def)

lemma catch_handler_fields:
  "status (catch_handler k err s) =
     (if invocationRef s > k then status s
      else \<lparr> isRunning = False, result = None, error = Some err \<rparr>)"
  "invocationRef (catch_handler k err s) = invocationRef s"
  "callbacksRef (catch_handler k err s) = callbacksRef s"
  "attached (catch_handler k err s) = attached s"
  "trace (catch_handler k err s) =
     trace s @ ConsoleError err #
     (if invocationRef s > k then []
      else SetStatus \<lparr> isRunning = False, result = None, error = Some err \<rparr>
           # calls (onError (callbacksRef s)) (\<lambda>c. OnError c err)
           @ calls (onFinally (callbacksRef s)) OnFinally)"
  by (simp_all add: catch_handler_def Let_def)

subsection \<open>Settlements and the invariant\<close>

lemma visible_append [simp]: "visible (xs @ ys) = visible xs @ visible ys"
  by (simp add: visible_def)

lemma visible_simps [simp]:
  "visible [] = []"
  "visible (ConsoleError e # xs) = visible xs"
  "visible (SetStatus st # xs) = SetStatus st # visible xs"
  "visible (FuncApply k args # xs) = FuncApply k args # visible xs"
  "visible (OnStart c # xs) = OnStart c # visible xs"
  "visible (OnComplete c res # xs) = OnComplete c res # visible xs"
  "visible (OnError c e # xs) = OnError c e # visible xs"
  "visible (OnFinally c # xs) = OnFinally c # visible xs"
  by (simp_all add: visible_def)

lemma visible_calls [simp]:
  "visible (calls cb OnStart) = calls cb OnStart"
  "visible (calls cb (\<lambda>c. OnComplete c res)) = calls cb (\<lambda>c. OnComplete c res)"
  "visible (calls cb (\<lambda>c. OnError c e)) = calls cb (\<lambda>c. OnError c e)"
  "visible (calls cb OnFinally) = calls cb OnFinally"
  by (cases cb; simp)+

lemma wf_init: "wf (useAsyncTask runOnMount cbs)"
  by (simp add: wf_def useAsyncTask_def)

lemma react_fields:
  "invocationRef (react k lr out s) = invocationRef s"
  "callbacksRef (react k lr out s) = callbacksRef s"
  "attached (react k lr out s) = attached s"
  by (cases out; simp add: then_handler_fields catch_handler_fields)+

lemma react_superseded:
  "k < invocationRef s \<Longrightarrow> status (react k lr out s) = status s"
  "k < invocationRef s \<Longrightarrow> visible (trace (react k lr out s)) = visible (trace s)"
  by (cases out; simp add: then_handler_fields catch_handler_fields)+

lemma react_cong:
  assumes "invocationRef s = invocationRef t" "callbacksRef s = callbacksRef t"
  shows "\<not> k < invocationRef s \<Longrightarrow> status (react k lr out s) = status (react k lr out t)"
    and "visible (trace s) = visible (trace t) \<Longrightarrow>
         visible (trace (react k lr out s)) = visible (trace (react k lr out t))"
  using assms by (cases out; simp add: then_handler_fields catch_handler_fields)+

lemma settle_SomeD:
  assumes "settle k out s = Some s'"
  obtains lr p where "map_of (attached s) k = Some (lr, p)" "p = Pending \<or> p = Settled out"
    "s' = react k lr out (s\<lparr> attached := filter (\<lambda>c. fst c \<noteq> k) (attached s) \<rparr>)"
  using assms by (auto simp: settle_def split: option.splits if_splits)

lemma settle_fields:
  assumes "settle k out s = Some s'"
  shows "invocationRef s' = invocationRef s"
    and "callbacksRef s' = callbacksRef s"
    and "attached s' = filter (\<lambda>c. fst c \<noteq> k) (attached s)"
    and "k \<in> set (map fst (attached s))"
  using assms by (auto elim!: settle_SomeD simp: react_fields dest: map_of_SomeD intro: rev_image_eqI)

lemma settle_superseded:
  assumes "settle k out s = Some s'" "k < invocationRef s"
  shows "status s' = status s" and "visible (trace s') = visible (trace s)"
  using assms by (auto elim!: settle_SomeD simp: react_superseded)

lemma then_handler_throws_SomeD:
  assumes "then_handler_throws k lr res who s = Some s1"
  shows "\<not> invocationRef s > k"
    and "status s1 = \<lparr> isRunning = truthy lr, result = res, error = None \<rparr>"
    and "invocationRef s1 = invocationRef s"
    and "callbacksRef s1 = callbacksRef s"
    and "attached s1 = attached s"
    and "trace s1 = trace s @
           SetStatus \<lparr> isRunning = truthy lr, result = res, error = None \<rparr>
           # calls (onComplete (callbacksRef s)) (\<lambda>c. OnComplete c res)
           @ (case who of ByOnComplete \<Rightarrow> [] | ByOnFinally \<Rightarrow> calls (onFinally (callbacksRef s)) OnFinally)"
    and "(case who of ByOnComplete \<Rightarrow> onComplete (callbacksRef s)
                    | ByOnFinally \<Rightarrow> onFinally (callbacksRef s)) \<noteq> None"
  using assms
  by (auto simp: then_handler_throws_def Let_def split: if_splits thrower.splits option.splits)

lemma settle_throws_SomeD:
  assumes "settle_throws k res who err s = Some s'"
  obtains lr p s1 where "map_of (attached s) k = Some (lr, p)"
    "p = Pending \<or> p = Settled (Fulfilled res)"
    "then_handler_throws k lr res who s = Some s1"
    "s' = s1\<lparr> attached := map (reject_chain k err) (attached s1) \<rparr>"
  using assms by (auto simp: settle_throws_def split: option.splits if_splits)

lemma fst_reject_chain [simp]: "fst (reject_chain k err c) = fst c"
  by (simp add: reject_chain_def)

lemma map_of_reject_chain:
  "map_of (map (reject_chain k err) xs) k'
     = (if k' = k then map_option (\<lambda>(lr, p). (lr, Settled (Rejected err))) (map_of xs k)
        else map_of xs k')"
proof (induction xs)
  case Nil
  then show ?case by simp
next
  case (Cons c xs)
  obtain j lr p where c: "c = (j, lr, p)" by (cases c)
  with Cons show ?case
    by (auto simp: reject_chain_def)
qed

lemma settle_throws_fields:
  assumes "settle_throws k res who err s = Some s'"
  shows "invocationRef s' = invocationRef s"
    and "callbacksRef s' = callbacksRef s"
    and "attached s' = map (reject_chain k err) (attached s)"
    and "k \<in> set (map fst (attached s))"
    and "\<not> invocationRef s > k"
proof -
  from assms obtain lr p s1 where look: "map_of (attached s) k = Some (lr, p)"
    and th: "then_handler_throws k lr res who s = Some s1"
    and s': "s' = s1\<lparr> attached := map (reject_chain k err) (attached s1) \<rparr>"
    by (rule settle_throws_SomeD)
  note f = then_handler_throws_SomeD[OF th]
  from s' f show "invocationRef s' = invocationRef s" "callbacksRef s' = callbacksRef s"
    "attached s' = map (reject_chain k err) (attached s)" "\<not> invocationRef s > k"
    by simp_all
  from look show "k \<in> set (map fst (attached s))"
    by (auto dest: map_of_SomeD intro: rev_image_eqI)
qed

lemma wf_step: "wf s \<Longrightarrow> step a s = Some s' \<Longrightarrow> wf s'"
proof (cases a)
  case (Settle k out)
  assume "wf s" "step a s = Some s'"
  with Settle have "settle k out s = Some s'" by simp
  from settle_fields(1,3)[OF this] \<open>wf s\<close> show ?thesis
    by (auto simp: wf_def)
next
  case (SettleThrows k res who err)
  assume "wf s" "step a s = Some s'"
  with SettleThrows have "settle_throws k res who err s = Some s'" by simp
  from settle_throws_fields(1,3)[OF this] \<open>wf s\<close> show ?thesis
    by (auto simp: wf_def)
qed (force simp: wf_def run_fields cancel_fields refresh_callbacks_fields)+

lemma wf_exec: "wf s \<Longrightarrow> exec acts s = Some s' \<Longrightarrow> wf s'"
  by (induction acts arbitrary: s) (auto split: option.splits dest: wf_step)

lemma wfD: "wf s \<Longrightarrow> k \<in> set (map fst (attached s)) \<Longrightarrow> k \<le> invocationRef s"
  by (auto simp: wf_def)

lemma settles_simps [simp]:
  "settles [] = []"
  "settles ((k, out) # ds) = Settle k out # settles ds"
  by (simp_all add: settles_def)

lemma exec_settles_fields:
  "exec (settles ds) s = Some s' \<Longrightarrow>
     invocationRef s' = invocationRef s \<and> callbacksRef s' = callbacksRef s
     \<and> set (map fst ds) \<subseteq> set (map fst (attached s))"
proof (induction ds arbitrary: s)
  case Nil
  then show ?case by simp
next
  case (Cons d ds)
  obtain k out where d: "d = (k, out)" by (cases d)
  from Cons.prems d obtain s1 where s1: "settle k out s = Some s1" and rest: "exec (settles ds) s1 = Some s'"
    by (auto split: option.splits)
  from Cons.IH[OF rest] settle_fields[OF s1] d show ?case
    by auto
qed

lemma exec_settles_superseded:
  "exec (settles ds) s = Some s' \<Longrightarrow> \<forall>k \<in> set (map fst ds). k < invocationRef s \<Longrightarrow>
     status s' = status s \<and> visible (trace s') = visible (trace s)"
proof (induction ds arbitrary: s)
  case Nil
  then show ?case by simp
next
  case (Cons d ds)
  obtain k out where d: "d = (k, out)" by (cases d)
  from Cons.prems d obtain s1 where s1: "settle k out s = Some s1" and rest: "exec (settles ds) s1 = Some s'"
    by (auto split: option.splits)
  from Cons.prems(2) d have k: "k < invocationRef s" by simp
  from Cons.prems(2) settle_fields(1)[OF s1] have "\<forall>k \<in> set (map fst ds). k < invocationRef s1"
    by simp
  from Cons.IH[OF rest this] settle_superseded[OF s1 k] show ?case
    by simp
qed

lemma map_of_filter_other:
  "k' \<noteq> k \<Longrightarrow> map_of (filter (\<lambda>c. fst c \<noteq> k) xs) k' = map_of xs k'"
  by (induction xs) auto

lemma exec_settles_winner:
  assumes "wf s" "exec (settles ds) s = Some s'"
  shows "case find (\<lambda>d. fst d = invocationRef s) ds of
           None \<Rightarrow> status s' = status s \<and> visible (trace s') = visible (trace s)
         | Some d \<Rightarrow> (\<exists>lr p. map_of (attached s) (fst d) = Some (lr, p)
               \<and> status s' = status (react (fst d) lr (snd d) s)
               \<and> visible (trace s') = visible (trace (react (fst d) lr (snd d) s)))"
  using assms
proof (induction ds arbitrary: s)
  case Nil
  then show ?case by simp
next
  case (Cons d ds)
  obtain k out where d: "d = (k, out)" by (cases d)
  from Cons.prems d obtain s1 where s1: "settle k out s = Some s1" and rest: "exec (settles ds) s1 = Some s'"
    by (auto split: option.splits)
  note sf = settle_fields[OF s1]
  have wf1: "wf s1" using wf_step[of s "Settle k out" s1] Cons.prems(1) s1 by simp
  show ?case
  proof (cases "k = invocationRef s")
    case True
    from s1 obtain lr p where look: "map_of (attached s) k = Some (lr, p)"
      and s1_eq: "s1 = react k lr out (s\<lparr> attached := filter (\<lambda>c. fst c \<noteq> k) (attached s) \<rparr>)"
      by (auto elim: settle_SomeD)
    have keys: "set (map fst ds) \<subseteq> set (map fst (attached s1))"
      using exec_settles_fields[OF rest] by simp
    have "\<forall>k' \<in> set (map fst ds). k' < invocationRef s1"
    proof
      fix k' assume "k' \<in> set (map fst ds)"
      with keys have in1: "k' \<in> set (map fst (attached s1))" by auto
      with sf(3) have "k' \<noteq> k" by auto
      moreover from in1 wf1 have "k' \<le> invocationRef s1" by (rule wfD[rotated])
      ultimately show "k' < invocationRef s1" using True sf(1) by simp
    qed
    from exec_settles_superseded[OF rest this]
    have "status s' = status s1" "visible (trace s') = visible (trace s1)" by simp_all
    moreover have "status s1 = status (react k lr out s)"
      unfolding s1_eq using True by (intro react_cong(1)) simp_all
    moreover have "visible (trace s1) = visible (trace (react k lr out s))"
      unfolding s1_eq by (intro react_cong(2)) simp_all
    ultimately show ?thesis using True d look by simp
  next
    case False
    from sf(4) Cons.prems(1) have "k \<le> invocationRef s" by (rule wfD[rotated])
    with False have lt: "k < invocationRef s" by simp
    note sup = settle_superseded[OF s1 lt]
    from False d have find_eq: "find (\<lambda>d. fst d = invocationRef s) (d # ds) = find (\<lambda>d. fst d = invocationRef s1) ds"
      using sf(1) by simp
    show ?thesis
    proof (cases "find (\<lambda>d. fst d = invocationRef s1) ds")
      case None
      with Cons.IH[OF wf1 rest] sup find_eq show ?thesis by simp
    next
      case (Some w)
      then have wk: "fst w = invocationRef s1" by (auto simp: find_Some_iff)
      from Some Cons.IH[OF wf1 rest] obtain lr p where
        look: "map_of (attached s1) (fst w) = Some (lr, p)"
        and st: "status s' = status (react (fst w) lr (snd w) s1)"
        and tr: "visible (trace s') = visible (trace (react (fst w) lr (snd w) s1))"
        by auto
      from wk sf(1) False have ne: "fst w \<noteq> k" by simp
      from look sf(3) ne have look': "map_of (attached s) (fst w) = Some (lr, p)"
        by (simp add: map_of_filter_other)
      have "status (react (fst w) lr (snd w) s1) = status (react (fst w) lr (snd w) s)"
        using wk sf by (intro react_cong(1)) simp_all
      moreover have "visible (trace (react (fst w) lr (snd w) s1)) = visible (trace (react (fst w) lr (snd w) s))"
        using sf sup by (intro react_cong(2)) simp_all
      ultimately show ?thesis using Some find_eq look' st tr by simp
    qed
  qed
qed

lemma step_mono: "step a s = Some s' \<Longrightarrow> invocationRef s \<le> invocationRef s'"
  by (cases a)
    (auto simp: run_fields cancel_fields refresh_callbacks_fields
      dest: settle_fields(1) settle_throws_fields(1))

lemma exec_mono: "exec acts s = Some s' \<Longrightarrow> invocationRef s \<le> invocationRef s'"
proof (induction acts arbitrary: s)
  case Nil
  then show ?case by simp
next
  case (Cons a acts)
  then obtain s1 where "step a s = Some s1" "exec acts s1 = Some s'"
    by (auto split: option.splits)
  with Cons.IH[of s1] step_mono[of a s s1] show ?case by simp
qed

lemma map_of_filter_same: "map_of (filter (\<lambda>c. fst c \<noteq> k) xs) k = None"
  by (induction xs) auto

lemma map_of_filter_key:
  "map_of (filter (\<lambda>c. fst c \<noteq> k) xs) k' = Some c \<Longrightarrow> map_of xs k' = Some c"
  by (cases "k' = k") (simp_all add: map_of_filter_same map_of_filter_other)

lemma step_chain_old:
  assumes "step a s = Some s'" "k \<le> invocationRef s" "map_of (attached s') k = Some (lr, p')"
  shows "\<exists>p. map_of (attached s) k = Some (lr, p) \<and> (p = p' \<or> \<not> rejected p \<and> rejected p')"
proof (cases a)
  case (Run func lr0 args)
  with assms show ?thesis
    by (auto simp: run_fields map_add_Some_iff)
next
  case (Settle k' out)
  with assms have "settle k' out s = Some s'" by simp
  from settle_fields(3)[OF this] assms(3) show ?thesis
    by (auto dest: map_of_filter_key)
next
  case (SettleThrows k' res who err)
  with assms have st: "settle_throws k' res who err s = Some s'" by simp
  note att = settle_throws_fields(3)[OF st]
  show ?thesis
  proof (cases "k = k'")
    case False
    with att assms(3) show ?thesis by (simp add: map_of_reject_chain)
  next
    case True
    from st obtain lr0 p0 where look: "map_of (attached s) k' = Some (lr0, p0)"
      and p0: "p0 = Pending \<or> p0 = Settled (Fulfilled res)"
      by (auto elim: settle_throws_SomeD)
    from p0 have "\<not> rejected p0" by auto
    with True att assms(3) look show ?thesis by (auto simp: map_of_reject_chain)
  qed
qed (use assms in \<open>auto simp: cancel_fields refresh_callbacks_fields\<close>)

lemma exec_chain_old:
  "exec acts s = Some s' \<Longrightarrow> k \<le> invocationRef s \<Longrightarrow> map_of (attached s') k = Some (lr, p')
   \<Longrightarrow> \<exists>p. map_of (attached s) k = Some (lr, p) \<and> (p = p' \<or> \<not> rejected p \<and> rejected p')"
proof (induction acts arbitrary: s)
  case Nil
  then show ?case by simp
next
  case (Cons a acts)
  then obtain s1 where s1: "step a s = Some s1" and rest: "exec acts s1 = Some s'"
    by (auto split: option.splits)
  from step_mono[OF s1] Cons.prems(2) have "k \<le> invocationRef s1" by simp
  from Cons.IH[OF rest this Cons.prems(3)] obtain p1 where
    p1: "map_of (attached s1) k = Some (lr, p1)" and ev1: "p1 = p' \<or> \<not> rejected p1 \<and> rejected p'"
    by blast
  from step_chain_old[OF s1 Cons.prems(2) p1] obtain p where
    p: "map_of (attached s) k = Some (lr, p)" and ev: "p = p1 \<or> \<not> rejected p \<and> rejected p1"
    by blast
  from ev ev1 have "p = p' \<or> \<not> rejected p \<and> rejected p'" by auto
  with p show ?case by blast
qed

lemma wf_reach: "exec pre (useAsyncTask runOnMount cbs) = Some s \<Longrightarrow> wf s"
  using wf_exec[OF wf_init] by blast

lemma run_chain:
  assumes "wf s"
  shows "map_of (attached (run func lr args s)) (invocationRef s + 1)
           = Some (lr, try_catch (func (invocationRef s + 1) args))"
proof -
  have "map_of (attached s) (invocationRef s + 1) = None"
  proof (rule ccontr)
    assume "map_of (attached s) (invocationRef s + 1) \<noteq> None"
    then obtain c where "map_of (attached s) (invocationRef s + 1) = Some c" by auto
    then have "invocationRef s + 1 \<in> set (map fst (attached s))"
      by (auto dest: map_of_SomeD intro: rev_image_eqI)
    from wfD[OF assms this] show False by simp
  qed
  then show ?thesis by (simp add: run_fields map_add_def)
qed

lemma same_visibleD:
  assumes "same_visible s t"
  shows "status s = status t"
    and "visible (trace s) = visible (trace t)"
    and "invocationRef s = invocationRef t"
    and "callbacksRef s = callbacksRef t"
    and "map_of (attached s) (invocationRef s) = map_of (attached t) (invocationRef s)"
  using assms unfolding same_visible_def by metis+

lemma same_visibleI:
  assumes "status s = status t"
    and "visible (trace s) = visible (trace t)"
    and "invocationRef s = invocationRef t"
    and "callbacksRef s = callbacksRef t"
    and "map_of (attached s) (invocationRef s) = map_of (attached t) (invocationRef s)"
  shows "same_visible s t"
  using assms unfolding same_visible_def by metis

lemma delivery_superseded:
  assumes "wf s" "step a s = Some s1" "chain_of a = Some k" "k \<noteq> invocationRef s"
  shows "same_visible s1 s"
proof (cases a)
  case (Settle k' out)
  with assms have st: "settle k out s = Some s1" by simp
  from wfD[OF assms(1) settle_fields(4)[OF st]] assms(4) have lt: "k < invocationRef s" by simp
  from assms(4) have "map_of (filter (\<lambda>c. fst c \<noteq> k) (attached s)) (invocationRef s)
      = map_of (attached s) (invocationRef s)"
    by (simp add: map_of_filter_other)
  with settle_superseded[OF st lt] settle_fields(1-3)[OF st] show ?thesis
    by (intro same_visibleI) simp_all
next
  case (SettleThrows k' res who err)
  with assms have st: "settle_throws k res who err s = Some s1" by simp
  from wfD[OF assms(1) settle_throws_fields(4)[OF st]] settle_throws_fields(5)[OF st] assms(4)
  show ?thesis by simp
qed (use assms in simp_all)

lemma delivery_winner:
  assumes "same_visible s t" "step a s = Some s1" "chain_of a = Some (invocationRef s)"
  shows "\<exists>t1. step a t = Some t1 \<and> same_visible s1 t1"
proof (cases a)
  case (Settle k out)
  with assms have k: "k = invocationRef s" and st: "settle k out s = Some s1" by simp_all
  from st obtain lr p where look: "map_of (attached s) k = Some (lr, p)"
    and p: "p = Pending \<or> p = Settled out"
    and s1: "s1 = react k lr out (s\<lparr> attached := filter (\<lambda>c. fst c \<noteq> k) (attached s) \<rparr>)"
    by (rule settle_SomeD)
  let ?t1 = "react k lr out (t\<lparr> attached := filter (\<lambda>c. fst c \<noteq> k) (attached t) \<rparr>)"
  note sv = same_visibleD[OF assms(1)]
  from sv(5) look k have look_t: "map_of (attached t) k = Some (lr, p)" by simp
  with p have t1: "settle k out t = Some ?t1" by (simp add: settle_def)
  have "status s1 = status ?t1"
    unfolding s1 using sv k by (intro react_cong(1)) simp_all
  moreover have "visible (trace s1) = visible (trace ?t1)"
    unfolding s1 using sv by (intro react_cong(2)) simp_all
  moreover have "invocationRef s1 = invocationRef ?t1" "callbacksRef s1 = callbacksRef ?t1"
    unfolding s1 using sv by (simp_all add: react_fields)
  moreover have "map_of (attached s1) (invocationRef s1) = map_of (attached ?t1) (invocationRef s1)"
    unfolding s1 using k by (simp add: react_fields map_of_filter_same)
  ultimately have "same_visible s1 ?t1" by (rule same_visibleI)
  with t1 Settle show ?thesis by simp
next
  case (SettleThrows k res who err)
  with assms have k: "k = invocationRef s" and st: "settle_throws k res who err s = Some s1"
    by simp_all
  from st obtain lr p sa where look: "map_of (attached s) k = Some (lr, p)"
    and p: "p = Pending \<or> p = Settled (Fulfilled res)"
    and th: "then_handler_throws k lr res who s = Some sa"
    and s1: "s1 = sa\<lparr> attached := map (reject_chain k err) (attached sa) \<rparr>"
    by (rule settle_throws_SomeD)
  note sv = same_visibleD[OF assms(1)]
  from sv(5) look k have look_t: "map_of (attached t) k = Some (lr, p)" by simp
  note f = then_handler_throws_SomeD[OF th]
  from f(1,7) sv(3,4) obtain ta where tha: "then_handler_throws k lr res who t = Some ta"
    by (cases who) (auto simp: then_handler_throws_def Let_def)
  note g = then_handler_throws_SomeD[OF tha]
  let ?t1 = "ta\<lparr> attached := map (reject_chain k err) (attached ta) \<rparr>"
  from look_t p tha have t1: "settle_throws k res who err t = Some ?t1"
    by (simp add: settle_throws_def)
  have "status s1 = status ?t1"
    using f(2) g(2) by (simp add: s1)
  moreover have "visible (trace s1) = visible (trace ?t1)"
    using f(6) g(6) sv(2,4) by (cases who) (simp_all add: s1)
  moreover have "invocationRef s1 = invocationRef ?t1" "callbacksRef s1 = callbacksRef ?t1"
    using f(3,4) g(3,4) sv(3,4) by (simp_all add: s1)
  moreover have "map_of (attached s1) (invocationRef s1) = map_of (attached ?t1) (invocationRef s1)"
    using f(3,5) g(5) look look_t k by (simp add: s1 map_of_reject_chain)
  ultimately have "same_visible s1 ?t1" by (rule same_visibleI)
  with t1 SettleThrows show ?thesis by simp
qed (use assms in simp_all)

lemma same_visible_trans:
  "same_visible s1 s \<Longrightarrow> same_visible s t \<Longrightarrow> same_visible s1 t"
  unfolding same_visible_def by metis

lemma exec_deliveries_erase:
  "wf s \<Longrightarrow> same_visible s t \<Longrightarrow> \<forall>a \<in> set das. chain_of a \<noteq> None \<Longrightarrow>
   exec das s = Some s' \<Longrightarrow>
   \<exists>t'. exec (filter (\<lambda>a. chain_of a = Some (invocationRef s)) das) t = Some t'
     \<and> same_visible s' t'"
proof (induction das arbitrary: s t)
  case Nil
  then show ?case by simp
next
  case (Cons a das)
  from Cons.prems(4) obtain s1 where s1: "step a s = Some s1" and rest: "exec das s1 = Some s'"
    by (auto split: option.splits)
  from Cons.prems(3) obtain k where k: "chain_of a = Some k" by auto
  from Cons.prems(3) have dels: "\<forall>a \<in> set das. chain_of a \<noteq> None" by simp
  note wf1 = wf_step[OF Cons.prems(1) s1]
  show ?case
  proof (cases "k = invocationRef s")
    case True
    with k have kw: "chain_of a = Some (invocationRef s)" by simp
    from delivery_winner[OF Cons.prems(2) s1 kw] obtain t1 where
      t1: "step a t = Some t1" and sv: "same_visible s1 t1" by blast
    have cnt: "invocationRef s1 = invocationRef s"
      using s1 k by (cases a) (auto dest: settle_fields(1) settle_throws_fields(1))
    from Cons.IH[OF wf1 sv dels rest] cnt kw t1 show ?thesis by simp
  next
    case False
    from delivery_superseded[OF Cons.prems(1) s1 k False] have sv1: "same_visible s1 s" .
    then have cnt: "invocationRef s1 = invocationRef s" by (rule same_visibleD(3))
    from Cons.IH[OF wf1 same_visible_trans[OF sv1 Cons.prems(2)] dels rest] cnt k False
    show ?thesis by simp
  qed
qed

lemma same_visible_refl: "same_visible s s"
  by (simp add: same_visible_def)

lemma exec_deliveries_none:
  assumes "wf s" "\<forall>k \<in> set (map fst (attached s)). k < invocationRef s"
    "\<forall>a \<in> set das. chain_of a \<noteq> None" "exec das s = Some s'"
  shows "status s' = status s \<and> visible (trace s') = visible (trace s)"
  using assms
proof (induction das arbitrary: s)
  case Nil
  then show ?case by simp
next
  case (Cons a das)
  from Cons.prems(4) obtain s1 where s1: "step a s = Some s1" and rest: "exec das s1 = Some s'"
    by (auto split: option.splits)
  from Cons.prems(3) obtain k where k: "chain_of a = Some k" by auto
  have "k \<in> set (map fst (attached s))"
    using s1 k by (cases a) (auto dest: settle_fields(4) settle_throws_fields(4))
  with Cons.prems(2) have ne: "k \<noteq> invocationRef s" by auto
  from delivery_superseded[OF Cons.prems(1) s1 k ne] have sv: "same_visible s1 s" .
  have keys: "set (map fst (attached s1)) \<subseteq> set (map fst (attached s))"
  proof (cases a)
    case (Settle k' out)
    with s1 have "settle k' out s = Some s1" by simp
    from settle_fields(3)[OF this] show ?thesis by auto
  next
    case (SettleThrows k' res who err)
    with s1 have "settle_throws k' res who err s = Some s1" by simp
    from settle_throws_fields(3)[OF this] show ?thesis by (simp add: comp_def)
  qed (use k in simp_all)
  from sv have cnt: "invocationRef s1 = invocationRef s" by (rule same_visibleD(3))
  have old: "\<forall>k \<in> set (map fst (attached s1)). k < invocationRef s1"
  proof
    fix j assume "j \<in> set (map fst (attached s1))"
    with keys have "j \<in> set (map fst (attached s))" by blast
    with Cons.prems(2) cnt show "j < invocationRef s1" by auto
  qed
  from Cons.prems(3) have dels: "\<forall>a \<in> set das. chain_of a \<noteq> None" by simp
  from Cons.IH[OF wf_step[OF Cons.prems(1) s1] old dels rest] same_visibleD(1,2)[OF sv]
  show ?case by simp
qed

lemmas eval_defs = settle_def run_def cancel_def then_handler_def catch_handler_def
  settle_throws_def then_handler_throws_def reject_chain_def
  setStatus_def emit_def call_opt_def calls_def try_catch_def try_block_def constant_task_def
  useAsyncTask_def callbacks_A_def callbacks_B_def refresh_callbacks_def
  pending_task_def init_A_def isCanceled_def settles_def Let_def visible_def

subsection \<open>Histories: callbacks, counter values, a rejected promise\<close>


lemma settle_run_falsy_aux:
  assumes wf: "wf s0" and f: "func (invocationRef s0 + 1) args = ReturnsFalsy"
  shows "map_of (attached (run func lr args s0)) (invocationRef s0 + 1)
           = Some (lr, Settled (Rejected
               (Error ''Error'' ''Task function did not return a Promise!'')))"
  using run_chain[OF wf, of func lr args] f
  by (simp add: try_catch_def try_block_def)

lemma step_callbacks:
  "step a s = Some s' \<Longrightarrow> callbacksRef s' = latest_callbacks [a] (callbacksRef s)"
  by (cases a)
    (auto simp: run_fields cancel_fields refresh_callbacks_fields
      dest: settle_fields(2) settle_throws_fields(2))

lemma latest_callbacks_Cons:
  "latest_callbacks (a # as) cbs = latest_callbacks as (latest_callbacks [a] cbs)"
  by (cases a) simp_all

lemma exec_callbacks:
  "exec acts s = Some s' \<Longrightarrow> callbacksRef s' = latest_callbacks acts (callbacksRef s)"
proof (induction acts arbitrary: s)
  case Nil
  then show ?case by simp
next
  case (Cons a acts)
  then obtain s1 where s1: "step a s = Some s1" and rest: "exec acts s1 = Some s'"
    by (auto split: option.splits)
  from Cons.IH[OF rest] step_callbacks[OF s1] show ?case
    by (subst latest_callbacks_Cons) simp
qed

lemma counter_values_gt:
  "sorted_wrt (<) (counter_values acts s) \<and> (\<forall>v \<in> set (counter_values acts s). invocationRef s < v)"
proof (induction acts arbitrary: s)
  case Nil
  then show ?case by simp
next
  case (Cons a acts)
  show ?case
  proof (cases "step a s")
    case None
    then show ?thesis by simp
  next
    case (Some s1)
    note IH = Cons.IH[of s1]
    from step_mono[OF Some] have le: "invocationRef s \<le> invocationRef s1" .
    show ?thesis
    proof (cases "advances a")
      case True
      then have "invocationRef s1 = invocationRef s + 1"
        using Some by (cases a) (auto simp: run_fields cancel_fields)
      with IH Some True show ?thesis by auto
    next
      case False
      with IH Some le show ?thesis by auto
    qed
  qed
qed

lemma invocations_append [simp]: "invocations (xs @ ys) = invocations xs @ invocations ys"
  by (induction xs rule: invocations.induct) simp_all

lemma invocations_calls [simp]:
  "invocations (calls cb OnStart) = []"
  "invocations (calls cb (\<lambda>c. OnComplete c res)) = []"
  "invocations (calls cb (\<lambda>c. OnError c e)) = []"
  "invocations (calls cb OnFinally) = []"
  by (cases cb; simp)+

lemma react_invocations: "invocations (trace (react k lr out s)) = invocations (trace s)"
  by (cases out) (simp_all add: then_handler_fields catch_handler_fields)

lemma step_invocations:
  assumes "step a s = Some s'"
    and "sorted_wrt (<) (invocations (trace s))"
    and "\<forall>k \<in> set (invocations (trace s)). k \<le> invocationRef s"
  shows "sorted_wrt (<) (invocations (trace s')) \<and> (\<forall>k \<in> set (invocations (trace s')). k \<le> invocationRef s')"
proof (cases a)
  case (Run func lr args)
  with assms show ?thesis
    by (fastforce simp: run_fields sorted_wrt_append)
next
  case Cancel
  with assms show ?thesis
    by (fastforce simp: cancel_fields)
next
  case (Render cbs)
  with assms show ?thesis
    by (auto simp: refresh_callbacks_fields)
next
  case (Settle k out)
  with assms(1) have "settle k out s = Some s'" by simp
  then have "invocations (trace s') = invocations (trace s)" "invocationRef s' = invocationRef s"
    by (auto elim!: settle_SomeD simp: react_invocations react_fields)
  with assms show ?thesis by simp
next
  case (SettleThrows k res who err)
  with assms(1) have st: "settle_throws k res who err s = Some s'" by simp
  then obtain lr s1 where th: "then_handler_throws k lr res who s = Some s1"
    and s': "s' = s1\<lparr> attached := map (reject_chain k err) (attached s1) \<rparr>"
    by (auto elim: settle_throws_SomeD)
  from then_handler_throws_SomeD(6)[OF th] s'
  have "invocations (trace s') = invocations (trace s)"
    by (cases who) simp_all
  with assms settle_throws_fields(1)[OF st] show ?thesis by simp
qed

lemma exec_invocations:
  "exec acts s = Some s' \<Longrightarrow> sorted_wrt (<) (invocations (trace s)) \<Longrightarrow>
   \<forall>k \<in> set (invocations (trace s)). k \<le> invocationRef s \<Longrightarrow>
   sorted_wrt (<) (invocations (trace s')) \<and> (\<forall>k \<in> set (invocations (trace s')). k \<le> invocationRef s')"
proof (induction acts arbitrary: s)
  case Nil
  then show ?case by simp
next
  case (Cons a acts)
  then obtain s1 where s1: "step a s = Some s1" and rest: "exec acts s1 = Some s'"
    by (auto split: option.splits)
  from step_invocations[OF s1 Cons.prems(2,3)] Cons.IH[OF rest] show ?case by simp
qed

lemma fst_reject_pending [simp]: "fst (reject_pending k e c) = fst c"
  by (simp add: reject_pending_def)

lemma reject_pending_other [simp]: "fst c \<noteq> k \<Longrightarrow> reject_pending k e c = c"
  by (simp add: reject_pending_def)

lemma filter_reject_pending:
  "filter (\<lambda>c. fst c \<noteq> k') (map (reject_pending k e) xs)
     = map (reject_pending k e) (filter (\<lambda>c. fst c \<noteq> k') xs)"
  by (induction xs) simp_all

lemma map_of_reject_pending:
  "map_of (map (reject_pending k e) xs) k'
     = map_option (\<lambda>(lr, p). (lr, if k' = k \<and> p = Pending then Settled (Rejected e) else p))
         (map_of xs k')"
proof (induction xs)
  case Nil
  then show ?case by simp
next
  case (Cons c xs)
  obtain j lr p where c: "c = (j, lr, p)" by (cases c)
  with Cons show ?case
    by (auto simp: reject_pending_def)
qed

lemma react_same_observable:
  "same_observable t u \<Longrightarrow> same_observable (react k lr out t) (react k lr out u)"
  by (cases out) (simp_all add: same_observable_def then_handler_fields catch_handler_fields)

lemma sim_settle:
  assumes "sim k e t u" and "k' = k \<longrightarrow> out = Rejected e"
  shows "rel_option (sim k e) (settle k' out t) (settle k' out u)"
proof (cases "map_of (attached u) k'")
  case None
  with assms(1) have "map_of (attached t) k' = None"
    by (simp add: sim_def map_of_reject_pending)
  with None show ?thesis by (simp add: settle_def)
next
  case (Some c)
  obtain lr p where c: "c = (lr, p)" by (cases c)
  let ?p' = "if k' = k \<and> p = Pending then Settled (Rejected e) else p"
  from Some c assms(1) have look_t: "map_of (attached t) k' = Some (lr, ?p')"
    by (simp add: sim_def map_of_reject_pending)
  have en: "(?p' = Pending \<or> ?p' = Settled out) \<longleftrightarrow> (p = Pending \<or> p = Settled out)"
    using assms(2) by auto
  show ?thesis
  proof (cases "p = Pending \<or> p = Settled out")
    case False
    with en Some c look_t show ?thesis by (simp add: settle_def)
  next
    case True
    let ?t1 = "t\<lparr> attached := filter (\<lambda>c. fst c \<noteq> k') (attached t) \<rparr>"
    let ?u1 = "u\<lparr> attached := filter (\<lambda>c. fst c \<noteq> k') (attached u) \<rparr>"
    from True en have st: "settle k' out t = Some (react k' lr out ?t1)"
      "settle k' out u = Some (react k' lr out ?u1)"
      using Some c look_t by (simp_all add: settle_def)
    have "same_observable ?t1 ?u1"
      using assms(1) by (simp add: sim_def same_observable_def)
    from react_same_observable[OF this]
    have so: "same_observable (react k' lr out ?t1) (react k' lr out ?u1)" .
    have "attached (react k' lr out ?t1) = map (reject_pending k e) (attached (react k' lr out ?u1))"
      using assms(1) by (simp add: react_fields sim_def filter_reject_pending)
    moreover have "k \<le> invocationRef (react k' lr out ?u1)"
      using assms(1) by (simp add: react_fields sim_def)
    ultimately show ?thesis using st so by (simp add: sim_def)
  qed
qed

lemma map_of_reject_pending_other:
  "k' \<noteq> k \<Longrightarrow> map_of (map (reject_pending k e) xs) k' = map_of xs k'"
  by (induction xs) (auto simp: reject_pending_def)

lemma reject_chain_reject_pending:
  "k' \<noteq> k \<Longrightarrow>
   reject_chain k' err (reject_pending k e c) = reject_pending k e (reject_chain k' err c)"
  by (auto simp: reject_chain_def reject_pending_def)

lemma then_handler_throws_same_observable:
  assumes "same_observable t u"
  shows "rel_option (\<lambda>t1 u1. same_observable t1 u1 \<and> attached t1 = attached t \<and> attached u1 = attached u)
           (then_handler_throws k lr res who t) (then_handler_throws k lr res who u)"
  using assms
  by (auto simp: then_handler_throws_def same_observable_def Let_def
      split: thrower.splits option.splits)

lemma sim_settle_throws:
  assumes "sim k e t u" and "k' \<noteq> k"
  shows "rel_option (sim k e) (settle_throws k' res who err t) (settle_throws k' res who err u)"
proof -
  from assms have look: "map_of (attached t) k' = map_of (attached u) k'"
    by (simp add: sim_def map_of_reject_pending_other)
  from assms(1) have so: "same_observable t u" by (simp add: sim_def)
  show ?thesis
  proof (cases "map_of (attached u) k'")
    case None
    with look show ?thesis by (simp add: settle_throws_def)
  next
    case (Some c)
    obtain lr p where c: "c = (lr, p)" by (cases c)
    show ?thesis
    proof (cases "p = Pending \<or> p = Settled (Fulfilled res)")
      case False
      with Some c look show ?thesis by (simp add: settle_throws_def)
    next
      case True
      from then_handler_throws_same_observable[OF so, of k' lr res who] show ?thesis
      proof (cases rule: option.rel_cases)
        case None
        with True Some c look show ?thesis by (simp add: settle_throws_def)
      next
        case (Some t1 u1)
        have "map (reject_chain k' err) (map (reject_pending k e) (attached u))
                = map (reject_pending k e) (map (reject_chain k' err) (attached u))"
          using assms(2) by (simp add: reject_chain_reject_pending)
        moreover have "invocationRef u1 = invocationRef u"
          using then_handler_throws_SomeD(3)[OF Some(2)] .
        ultimately have "sim k e (t1\<lparr> attached := map (reject_chain k' err) (attached t1) \<rparr>)
            (u1\<lparr> attached := map (reject_chain k' err) (attached u1) \<rparr>)"
          using Some(3) assms(1) by (simp add: sim_def same_observable_def)
        with True \<open>map_of (attached u) k' = Some c\<close> c look Some(1,2) show ?thesis
          by (simp add: settle_throws_def)
      qed
    qed
  qed
qed

lemma sim_step:
  assumes "sim k e t u" and "\<forall>out. a = Settle k out \<longrightarrow> out = Rejected e"
    and "\<forall>res who err. a \<noteq> SettleThrows k res who err"
  shows "rel_option (sim k e) (step a t) (step a u)"
proof (cases a)
  case (Run func lr args)
  with assms(1) show ?thesis
    by (simp add: sim_def same_observable_def run_fields)
next
  case Cancel
  with assms(1) show ?thesis
    by (simp add: sim_def same_observable_def cancel_fields)
next
  case (Render cbs)
  with assms(1) show ?thesis
    by (simp add: sim_def same_observable_def refresh_callbacks_fields)
next
  case (Settle k' out)
  with assms(2) have "k' = k \<longrightarrow> out = Rejected e" by simp
  from sim_settle[OF assms(1) this] Settle show ?thesis by simp
next
  case (SettleThrows k' res who err)
  with assms(3) have "k' \<noteq> k" by auto
  from sim_settle_throws[OF assms(1) this] SettleThrows show ?thesis by simp
qed

lemma sim_exec:
  "sim k e t u \<Longrightarrow> \<forall>out. Settle k out \<in> set acts \<longrightarrow> out = Rejected e \<Longrightarrow>
   \<forall>res who err. SettleThrows k res who err \<notin> set acts \<Longrightarrow>
   rel_option (sim k e) (exec acts t) (exec acts u)"
proof (induction acts arbitrary: t u)
  case Nil
  then show ?case by simp
next
  case (Cons a acts)
  from Cons.prems(2) have a: "\<forall>out. a = Settle k out \<longrightarrow> out = Rejected e"
    and rest: "\<forall>out. Settle k out \<in> set acts \<longrightarrow> out = Rejected e"
    by auto
  from Cons.prems(3) have a': "\<forall>res who err. a \<noteq> SettleThrows k res who err"
    and rest': "\<forall>res who err. SettleThrows k res who err \<notin> set acts"
    by auto
  from sim_step[OF Cons.prems(1) a a'] show ?case
  proof (cases rule: option.rel_cases)
    case None
    then show ?thesis by simp
  next
    case (Some t1 u1)
    with Cons.IH[OF Some(3) rest rest'] show ?thesis by simp
  qed
qed

lemma sim_run:
  assumes wf: "wf s" and p: "p = Pending \<or> p = Settled (Rejected e)"
    and f: "func (invocationRef s + 1) args = Throws e"
    and g: "func' (invocationRef s + 1) args = ReturnsPromise p"
  shows "sim (invocationRef s + 1) e (run func lr args s) (run func' lr args s)"
proof -
  have "map (reject_pending (invocationRef s + 1) e) (attached s) = attached s"
  proof (rule map_idI)
    fix c assume "c \<in> set (attached s)"
    then have "fst c \<in> set (map fst (attached s))" by simp
    from wfD[OF wf this] show "reject_pending (invocationRef s + 1) e c = c" by simp
  qed
  with p f g show ?thesis
    by (auto simp: sim_def same_observable_def run_fields try_catch_def try_block_def reject_pending_def)
qed

subsection \<open>The claims\<close>

text \<open>
  C1, as amended. Every call of \<^verbatim>\<open>run\<close> first takes a new generation, then calls the
  task function with it (inside the \<^verbatim>\<open>try\<close> block), only then commits the status
  \<open>isRunning = true\<close>, \<open>result\<close> and \<open>error\<close> absent, then calls \<open>onStart\<close> if it
  is configured, and at last attaches the chain that will react to the settlement.
\<close>

theorem C1_run_order:
  "invocationRef (run func leaveRunning args s) = invocationRef s + 1
   \<and> trace (run func leaveRunning args s) =
       trace s @ [FuncApply (invocationRef s + 1) args,
                  SetStatus \<lparr> isRunning = True, result = None, error = None \<rparr>]
         @ calls (onStart (callbacksRef s)) OnStart
   \<and> status (run func leaveRunning args s) = \<lparr> isRunning = True, result = None, error = None \<rparr>
   \<and> attached (run func leaveRunning args s) =
       attached s @ [(invocationRef s + 1, leaveRunning, try_catch (func (invocationRef s + 1) args))]"
  by (simp add: run_fields running_status_def)

text \<open>
  C1, as the claim states it, fails: in the first \<^verbatim>\<open>run\<close> of a controller with
  \<open>onStart\<close> configured, neither the commit of the running status nor the call of
  \<open>onStart\<close> comes before the call of the task function; the call of the task function
  comes before the commit.
\<close>

theorem C1_counterexample:
  "trace (run (constant_task (ReturnsPromise Pending)) None ([] :: nat list)
            (useAsyncTask None callbacks_A :: (nat, nat, string) controller))
     = [FuncApply 1 [], SetStatus \<lparr> isRunning = True, result = None, error = None \<rparr>,
        OnStart ''startA'']
   \<and> \<not> precedes (SetStatus \<lparr> isRunning = True, result = None, error = None \<rparr>) (FuncApply 1 [])
        (trace (run (constant_task (ReturnsPromise Pending)) None ([] :: nat list)
                 (useAsyncTask None callbacks_A :: (nat, nat, string) controller)))
   \<and> \<not> precedes (OnStart ''startA'') (FuncApply 1 [])
        (trace (run (constant_task (ReturnsPromise Pending)) None ([] :: nat list)
                 (useAsyncTask None callbacks_A :: (nat, nat, string) controller)))
   \<and> precedes (FuncApply 1 []) (SetStatus \<lparr> isRunning = True, result = None, error = None \<rparr>)
        (trace (run (constant_task (ReturnsPromise Pending)) None ([] :: nat list)
                 (useAsyncTask None callbacks_A :: (nat, nat, string) controller)))"
  by (simp add: run_fields running_status_def useAsyncTask_def callbacks_A_def)

text \<open>
  C2. Let \<open>s\<close> be any state that a controller reaches (after any calls of \<^verbatim>\<open>run\<close>,
  settled or not). A chain that can react in \<open>s\<close> belongs to a superseded invocation
  or to the latest one, and the reaction of a superseded one writes no status and calls
  no user callback (it may log), so that none can throw in it either. After one more
  \<^verbatim>\<open>run\<close>, whatever settlements are delivered and in whatever order, status and
  the visible trace are those of the settlement of this last call alone, or those left
  by \<^verbatim>\<open>run\<close> when it has not settled. After \<^verbatim>\<open>cancel\<close>, no settlement changes the
  status or calls a callback. The last two statements are given twice: for deliveries
  whose callbacks return, with the outcome spelled out, and for all deliveries, also
  those in which a callback of the last call throws: leaving out the deliveries to
  superseded chains changes neither the status nor the visible trace.
\<close>

theorem C2_only_latest_settlement_commits:
  assumes "exec pre (useAsyncTask runOnMount cbs) = Some s"
  shows "(settle k out s = Some t \<longrightarrow>
            (isCanceled k s \<or> k = invocationRef s)
            \<and> (isCanceled k s \<longrightarrow> status t = status s \<and> visible (trace t) = visible (trace s)))
       \<and> (isCanceled k s \<longrightarrow> settle_throws k res who err s = None)
       \<and> (exec (settles ds) (run func lr args s) = Some s' \<longrightarrow>
            (case find (\<lambda>d. fst d = invocationRef s + 1) ds of
               None \<Rightarrow> status s' = status (run func lr args s)
                     \<and> visible (trace s') = visible (trace (run func lr args s))
             | Some d \<Rightarrow> status s' = status (react (fst d) lr (snd d) (run func lr args s))
                     \<and> visible (trace s') = visible (trace (react (fst d) lr (snd d) (run func lr args s)))
                     \<and> result (status s') = (case snd d of Fulfilled res \<Rightarrow> res | Rejected err \<Rightarrow> None)
                     \<and> error (status s') = (case snd d of Fulfilled res \<Rightarrow> None | Rejected err \<Rightarrow> Some err)))
       \<and> (exec (settles ds') (cancel s) = Some s'' \<longrightarrow>
            status s'' = status (cancel s) \<and> visible (trace s'') = visible (trace (cancel s)))
       \<and> (exec das (run func lr args s) = Some sr \<longrightarrow> (\<forall>a \<in> set das. chain_of a \<noteq> None) \<longrightarrow>
            (\<exists>t. exec (filter (\<lambda>a. chain_of a = Some (invocationRef s + 1)) das)
                   (run func lr args s) = Some t
               \<and> status sr = status t \<and> visible (trace sr) = visible (trace t)))
       \<and> (exec das' (cancel s) = Some sc \<longrightarrow> (\<forall>a \<in> set das'. chain_of a \<noteq> None) \<longrightarrow>
            status sc = status (cancel s) \<and> visible (trace sc) = visible (trace (cancel s)))"
proof -
  note wf = wf_reach[OF assms]
  have A: "isCanceled k s \<or> k = invocationRef s" if st: "settle k out s = Some t"
    using wfD[OF wf settle_fields(4)[OF st]] by (auto simp: isCanceled_def)
  have B: "status t = status s \<and> visible (trace t) = visible (trace s)"
    if st: "settle k out s = Some t" and c: "isCanceled k s"
  proof -
    from c have "k < invocationRef s" by (simp add: isCanceled_def)
    from settle_superseded[OF st this] show ?thesis by simp
  qed
  have C: "case find (\<lambda>d. fst d = invocationRef s + 1) ds of
               None \<Rightarrow> status s' = status (run func lr args s)
                     \<and> visible (trace s') = visible (trace (run func lr args s))
             | Some d \<Rightarrow> status s' = status (react (fst d) lr (snd d) (run func lr args s))
                     \<and> visible (trace s') = visible (trace (react (fst d) lr (snd d) (run func lr args s)))
                     \<and> result (status s') = (case snd d of Fulfilled res \<Rightarrow> res | Rejected err \<Rightarrow> None)
                     \<and> error (status s') = (case snd d of Fulfilled res \<Rightarrow> None | Rejected err \<Rightarrow> Some err)"
    if ex: "exec (settles ds) (run func lr args s) = Some s'"
  proof -
    have wf1: "wf (run func lr args s)"
      using wf_step[OF wf, of "Run func lr args"] by simp
    have cnt: "invocationRef (run func lr args s) = invocationRef s + 1"
      by (simp add: run_fields)
    note win = exec_settles_winner[OF wf1 ex, unfolded cnt]
    show ?thesis
    proof (cases "find (\<lambda>d. fst d = invocationRef s + 1) ds")
      case None
      with win show ?thesis by simp
    next
      case (Some d)
      then have k: "fst d = invocationRef s + 1" by (auto simp: find_Some_iff)
      have "result (status (react (fst d) lr (snd d) (run func lr args s)))
              = (case snd d of Fulfilled res \<Rightarrow> res | Rejected err \<Rightarrow> None)"
        "error (status (react (fst d) lr (snd d) (run func lr args s)))
              = (case snd d of Fulfilled res \<Rightarrow> None | Rejected err \<Rightarrow> Some err)"
        using k by (cases "snd d"; simp add: then_handler_fields catch_handler_fields run_fields)+
      with k Some win run_chain[OF wf, of func lr args] show ?thesis by auto
    qed
  qed
  have D: "status s'' = status (cancel s) \<and> visible (trace s'') = visible (trace (cancel s))"
    if ex: "exec (settles ds') (cancel s) = Some s''"
  proof -
    have "\<forall>k \<in> set (map fst ds'). k < invocationRef (cancel s)"
    proof
      fix k assume "k \<in> set (map fst ds')"
      with exec_settles_fields[OF ex] have "k \<in> set (map fst (attached s))"
        by (auto simp: cancel_fields)
      from wfD[OF wf this] show "k < invocationRef (cancel s)" by (simp add: cancel_fields)
    qed
    from exec_settles_superseded[OF ex this] show ?thesis .
  qed
  have E: "settle_throws k res who err s = None" if c: "isCanceled k s"
  proof (rule ccontr)
    assume "settle_throws k res who err s \<noteq> None"
    then obtain u where "settle_throws k res who err s = Some u" by auto
    from settle_throws_fields(5)[OF this] c show False by (simp add: isCanceled_def)
  qed
  have F: "\<exists>t. exec (filter (\<lambda>a. chain_of a = Some (invocationRef s + 1)) das)
                   (run func lr args s) = Some t
               \<and> status sr = status t \<and> visible (trace sr) = visible (trace t)"
    if ex: "exec das (run func lr args s) = Some sr" and dels: "\<forall>a \<in> set das. chain_of a \<noteq> None"
  proof -
    have wf1: "wf (run func lr args s)"
      using wf_step[OF wf, of "Run func lr args"] by simp
    have cnt: "invocationRef (run func lr args s) = invocationRef s + 1"
      by (simp add: run_fields)
    from exec_deliveries_erase[OF wf1 same_visible_refl dels ex, unfolded cnt]
    obtain t where "exec (filter (\<lambda>a. chain_of a = Some (invocationRef s + 1)) das)
                   (run func lr args s) = Some t" and "same_visible sr t"
      by blast
    with same_visibleD(1,2)[of sr t] show ?thesis by blast
  qed
  have G: "status sc = status (cancel s) \<and> visible (trace sc) = visible (trace (cancel s))"
    if ex: "exec das' (cancel s) = Some sc" and dels: "\<forall>a \<in> set das'. chain_of a \<noteq> None"
  proof -
    have wfc: "wf (cancel s)"
      using wf_step[OF wf, of Cancel] by simp
    have "\<forall>k \<in> set (map fst (attached (cancel s))). k < invocationRef (cancel s)"
    proof
      fix k assume "k \<in> set (map fst (attached (cancel s)))"
      then have "k \<in> set (map fst (attached s))" by (simp add: cancel_fields)
      from wfD[OF wf this] show "k < invocationRef (cancel s)" by (simp add: cancel_fields)
    qed
    from exec_deliveries_none[OF wfc this dels ex] show ?thesis .
  qed
  from A B C D E F G show ?thesis by blast
qed

text \<open>
  Three calls of \<^verbatim>\<open>run\<close>; the third rejects, the first two resolve later. Only the
  rejection shows. After \<^verbatim>\<open>cancel\<close> instead of the third call, nothing shows.
\<close>

theorem C2_witness:
  "\<exists>s t s' s'' sr sc.
     exec [Run pending_task None [], Run pending_task None []] init_A = Some s
   \<and> settle 1 (Fulfilled (Some ''A'')) s = Some t
   \<and> isCanceled 1 s \<and> status t = status s \<and> visible (trace t) = visible (trace s)
   \<and> settle_throws 1 (Some ''A'') ByOnComplete (Error ''Error'' ''D'') s = None
   \<and> exec (settles [(3, Rejected (Error ''Error'' ''C'')), (1, Fulfilled (Some ''A'')), (2, Fulfilled (Some ''B''))])
        (run pending_task None [] s) = Some s'
   \<and> status s' = \<lparr> isRunning = False, result = None, error = Some (Error ''Error'' ''C'') \<rparr>
   \<and> visible (trace s') = visible (trace (run pending_task None [] s))
        @ [SetStatus \<lparr> isRunning = False, result = None, error = Some (Error ''Error'' ''C'') \<rparr>,
           OnError ''errorA'' (Error ''Error'' ''C''), OnFinally ''finallyA'']
   \<and> exec (settles [(2, Fulfilled (Some ''B'')), (1, Rejected (Error ''Error'' ''A''))]) (cancel s) = Some s''
   \<and> status s'' = \<lparr> isRunning = False, result = None, error = None \<rparr>
   \<and> visible (trace s'') = visible (trace (cancel s))
   \<and> exec [SettleThrows 3 (Some ''C'') ByOnComplete (Error ''Error'' ''D''),
            Settle 1 (Fulfilled (Some ''A'')),
            Settle 3 (Rejected (Error ''Error'' ''D'')),
            Settle 2 (Fulfilled (Some ''B''))] (run pending_task None [] s) = Some sr
   \<and> status sr = \<lparr> isRunning = False, result = None, error = Some (Error ''Error'' ''D'') \<rparr>
   \<and> visible (trace sr) = visible (trace (run pending_task None [] s))
        @ [SetStatus \<lparr> isRunning = False, result = Some ''C'', error = None \<rparr>,
           OnComplete ''completeA'' (Some ''C''),
           SetStatus \<lparr> isRunning = False, result = None, error = Some (Error ''Error'' ''D'') \<rparr>,
           OnError ''errorA'' (Error ''Error'' ''D''), OnFinally ''finallyA'']
   \<and> exec [Settle 2 (Fulfilled (Some ''B'')), Settle 1 (Rejected (Error ''Error'' ''A''))] (cancel s) = Some sc
   \<and> status sc = \<lparr> isRunning = False, result = None, error = None \<rparr>
   \<and> visible (trace sc) = visible (trace (cancel s))"
proof -
  let ?das = "[SettleThrows 3 (Some ''C'') ByOnComplete (Error ''Error'' ''D''),
            Settle 1 (Fulfilled (Some ''A'')),
            Settle 3 (Rejected (Error ''Error'' ''D'')),
            Settle 2 (Fulfilled (Some ''B''))] :: (nat, string, string) action list"
  let ?das' = "[Settle 2 (Fulfilled (Some ''B'')), Settle 1 (Rejected (Error ''Error'' ''A''))]
      :: (nat, string, string) action list"
  define s where "s = run pending_task None [] (run pending_task None [] init_A)"
  have pre: "exec [Run pending_task None [], Run pending_task None []] init_A = Some s"
    by (simp add: s_def)
  obtain t where t: "settle 1 (Fulfilled (Some ''A'')) s = Some t"
    by (simp add: s_def eval_defs)
  have c: "isCanceled 1 s"
    by (simp add: s_def eval_defs)
  obtain s' where s': "exec (settles [(3, Rejected (Error ''Error'' ''C'')), (1, Fulfilled (Some ''A'')), (2, Fulfilled (Some ''B''))])
        (run pending_task None [] s) = Some s'"
    by (simp add: s_def eval_defs)
  obtain s'' where s'': "exec (settles [(2, Fulfilled (Some ''B'')), (1, Rejected (Error ''Error'' ''A''))]) (cancel s) = Some s''"
    by (simp add: s_def eval_defs)
  obtain sr where sr: "exec ?das (run pending_task None [] s) = Some sr"
    by (simp add: s_def eval_defs)
  obtain sc where sc: "exec ?das' (cancel s) = Some sc"
    by (simp add: s_def eval_defs)
  have dels: "\<forall>a \<in> set ?das. chain_of a \<noteq> None" "\<forall>a \<in> set ?das'. chain_of a \<noteq> None"
    by simp_all
  have cnt: "invocationRef s = 2" "callbacksRef s = callbacks_A"
    by (simp_all add: s_def run_fields init_A_def useAsyncTask_def)
  note inst = C2_only_latest_settlement_commits[OF pre[unfolded init_A_def],
      where k = 1 and out = "Fulfilled (Some ''A'')" and t = t
      and res = "Some ''A''" and who = ByOnComplete and err = "Error ''Error'' ''D''"
      and ds = "[(3, Rejected (Error ''Error'' ''C'')), (1, Fulfilled (Some ''A'')), (2, Fulfilled (Some ''B''))]"
      and func = pending_task and lr = None and args = "[]" and s' = s'
      and ds' = "[(2, Fulfilled (Some ''B'')), (1, Rejected (Error ''Error'' ''A''))]" and s'' = s''
      and das = ?das and sr = sr and das' = ?das' and sc = sc]
  from inst sr dels(1) obtain tw where
    tw: "exec (filter (\<lambda>a. chain_of a = Some (invocationRef s + 1)) ?das)
           (run pending_task None [] s) = Some tw"
    and sr_tw: "status sr = status tw" "visible (trace sr) = visible (trace tw)"
    by blast
  from tw have
    "status tw = \<lparr> isRunning = False, result = None, error = Some (Error ''Error'' ''D'') \<rparr>"
    "visible (trace tw) = visible (trace (run pending_task None [] s))
        @ [SetStatus \<lparr> isRunning = False, result = Some ''C'', error = None \<rparr>,
           OnComplete ''completeA'' (Some ''C''),
           SetStatus \<lparr> isRunning = False, result = None, error = Some (Error ''Error'' ''D'') \<rparr>,
           OnError ''errorA'' (Error ''Error'' ''D''), OnFinally ''finallyA'']"
    by (auto simp: cnt s_def eval_defs)
  with sr_tw have R: "status sr = \<lparr> isRunning = False, result = None, error = Some (Error ''Error'' ''D'') \<rparr>"
    "visible (trace sr) = visible (trace (run pending_task None [] s))
        @ [SetStatus \<lparr> isRunning = False, result = Some ''C'', error = None \<rparr>,
           OnComplete ''completeA'' (Some ''C''),
           SetStatus \<lparr> isRunning = False, result = None, error = Some (Error ''Error'' ''D'') \<rparr>,
           OnError ''errorA'' (Error ''Error'' ''D''), OnFinally ''finallyA'']"
    by simp_all
  from inst sc dels(2) have C: "status sc = \<lparr> isRunning = False, result = None, error = None \<rparr>"
    "visible (trace sc) = visible (trace (cancel s))"
    by (simp_all add: cancel_fields reset_status_def)
  from inst t c have T: "status t = status s" "visible (trace t) = visible (trace s)"
    "settle_throws 1 (Some ''A'') ByOnComplete (Error ''Error'' ''D'') s = None"
    by blast+
  from inst s' have S': "status s' = \<lparr> isRunning = False, result = None, error = Some (Error ''Error'' ''C'') \<rparr>"
    "visible (trace s') = visible (trace (run pending_task None [] s))
        @ [SetStatus \<lparr> isRunning = False, result = None, error = Some (Error ''Error'' ''C'') \<rparr>,
           OnError ''errorA'' (Error ''Error'' ''C''), OnFinally ''finallyA'']"
    by (simp_all add: cnt catch_handler_fields run_fields callbacks_A_def)
  from inst s'' have S'': "status s'' = \<lparr> isRunning = False, result = None, error = None \<rparr>"
    "visible (trace s'') = visible (trace (cancel s))"
    by (simp_all add: cancel_fields reset_status_def)
  from pre t c T s' S' s'' S'' sr R sc C show ?thesis by blast
qed



text \<open>
  C4. In every state that a controller reaches, \<^verbatim>\<open>cancel\<close> advances the counter by
  one, so that every attached chain and every generation that the task function was
  ever called with is superseded; it commits the status \<open>isRunning = false\<close>,
  \<open>result\<close> and \<open>error\<close> absent, and does nothing else: no callback is called and
  the callbacks and the attached chains stay. A second \<^verbatim>\<open>cancel\<close> leaves the status
  of the first, and \<^verbatim>\<open>cancel\<close> in a state whose status is the idle one keeps it.
\<close>

theorem C4_cancel:
  assumes "exec pre (useAsyncTask runOnMount cbs) = Some s"
  shows "invocationRef (cancel s) = invocationRef s + 1
       \<and> (\<forall>k \<in> set (map fst (attached (cancel s))). isCanceled k (cancel s))
       \<and> (\<forall>i \<in> set (invocations (trace s)). isCanceled i (cancel s))
       \<and> status (cancel s) = \<lparr> isRunning = False, result = None, error = None \<rparr>
       \<and> trace (cancel s) = trace s @ [SetStatus \<lparr> isRunning = False, result = None, error = None \<rparr>]
       \<and> callbacksRef (cancel s) = callbacksRef s
       \<and> attached (cancel s) = attached s
       \<and> status (cancel (cancel s)) = status (cancel s)
       \<and> (status s = \<lparr> isRunning = False, result = None, error = None \<rparr> \<longrightarrow> status (cancel s) = status s)"
proof -
  have A: "isCanceled k (cancel s)" if "k \<in> set (map fst (attached s))" for k
    using wfD[OF wf_reach[OF assms] that] by (simp add: isCanceled_def cancel_fields)
  have "\<forall>i \<in> set (invocations (trace s)). i \<le> invocationRef s"
    using exec_invocations[OF assms] by (simp add: useAsyncTask_def)
  then have B: "\<forall>i \<in> set (invocations (trace s)). isCanceled i (cancel s)"
    by (auto simp: isCanceled_def cancel_fields)
  from A B show ?thesis
    by (simp add: cancel_fields reset_status_def)
qed

text \<open>\<^verbatim>\<open>cancel\<close> after one \<^verbatim>\<open>run\<close>, and \<^verbatim>\<open>cancel\<close> of the idle controller.\<close>

theorem C4_witness:
  "exec [Run pending_task None []] (useAsyncTask None callbacks_A) = Some (run pending_task None [] init_A)
   \<and> 1 \<in> set (map fst (attached (cancel (run pending_task None [] init_A))))
   \<and> 1 \<in> set (invocations (trace (run pending_task None [] init_A)))
   \<and> \<not> isCanceled 1 (run pending_task None [] init_A)
   \<and> isCanceled 1 (cancel (run pending_task None [] init_A))
   \<and> trace (cancel (run pending_task None [] init_A))
       = [FuncApply 1 [], SetStatus \<lparr> isRunning = True, result = None, error = None \<rparr>, OnStart ''startA'',
          SetStatus \<lparr> isRunning = False, result = None, error = None \<rparr>]
   \<and> exec [] (useAsyncTask None callbacks_A) = Some init_A
   \<and> status init_A = \<lparr> isRunning = False, result = None, error = None \<rparr>
   \<and> status (cancel init_A) = status init_A
   \<and> invocationRef (cancel init_A) = 1"
proof -
  have a: "exec [Run pending_task None []] (useAsyncTask None callbacks_A) = Some (run pending_task None [] init_A)"
    by (simp add: init_A_def)
  have b: "exec [] (useAsyncTask None callbacks_A) = Some init_A"
    by (simp add: init_A_def)
  from C4_cancel[OF a] C4_cancel[OF b] a b show ?thesis
    by (simp add: run_fields cancel_fields init_A_def useAsyncTask_def callbacks_A_def
        running_status_def isCanceled_def)
qed

text \<open>
  C5. Let the task function throw \<open>e\<close> in a call of \<^verbatim>\<open>run\<close>. The exception leaves
  the \<^verbatim>\<open>try\<close> block and the \<^verbatim>\<open>catch\<close> clause turns it into a promise rejected
  with \<open>e\<close>; \<^verbatim>\<open>run\<close> itself yields the next state and nothing else. Compare with a
  task function that, in the same call, returns a promise that is rejected with \<open>e\<close>
  at once or later. Right after \<^verbatim>\<open>run\<close> and after every further history in which
  that promise settles in no other way (it is not fulfilled, with callbacks that
  return or with one that throws), the two controllers have the same status, the
  same trace (log, commits and callbacks), the same counter and the same callbacks,
  and where one history cannot go on the other cannot either.
\<close>

theorem C5_synchronous_throw:
  assumes "exec pre (useAsyncTask runOnMount cbs) = Some s"
      and "func (invocationRef s + 1) args = Throws e"
      and "func' (invocationRef s + 1) args = ReturnsPromise p"
      and "p = Pending \<or> p = Settled (Rejected e)"
      and "\<forall>out. Settle (invocationRef s + 1) out \<in> set acts \<longrightarrow> out = Rejected e"
      and "\<forall>res who err. SettleThrows (invocationRef s + 1) res who err \<notin> set acts"
  shows "try_block (func (invocationRef s + 1) args) = Inl e
       \<and> try_catch (func (invocationRef s + 1) args) = Settled (Rejected e)
       \<and> same_observable (run func lr args s) (run func' lr args s)
       \<and> settle (invocationRef s + 1) (Rejected e) (run func lr args s) \<noteq> None
       \<and> rel_option same_observable
            (exec acts (run func lr args s)) (exec acts (run func' lr args s))"
proof -
  let ?k = "invocationRef s + 1"
  note wf = wf_reach[OF assms(1)]
  have sim0: "sim ?k e (run func lr args s) (run func' lr args s)"
    using sim_run[where func = func and func' = func' and args = args and s = s and p = p and e = e]
      wf assms(2-4) by simp
  have A: "try_block (func ?k args) = Inl e" "try_catch (func ?k args) = Settled (Rejected e)"
    using assms(2) by (simp_all add: try_catch_def try_block_def)
  have B: "same_observable (run func lr args s) (run func' lr args s)"
    using sim0 by (simp add: sim_def)
  have "map_of (attached (run func lr args s)) ?k = Some (lr, Settled (Rejected e))"
    using run_chain[OF wf, of func lr args] A(2) by simp
  then have C: "settle ?k (Rejected e) (run func lr args s) \<noteq> None"
    by (simp add: settle_def)
  have D: "rel_option same_observable (exec acts (run func lr args s)) (exec acts (run func' lr args s))"
    using sim_exec[OF sim0 assms(5) assms(6)]
    by (rule option.rel_mono_strong) (simp add: sim_def)
  from A B C D show ?thesis by simp
qed

text \<open>A task function that throws, against one whose promise rejects after a render.\<close>

theorem C5_witness:
  "\<exists>t u. exec [] (useAsyncTask None callbacks_A) = Some init_A
     \<and> throwing_task (invocationRef init_A + 1) [] = Throws (Error ''TypeError'' ''boom'')
     \<and> pending_task (invocationRef init_A + 1) [] = ReturnsPromise Pending
     \<and> (\<forall>out. Settle (invocationRef init_A + 1) out
            \<in> set [Render callbacks_B, Settle 1 (Rejected (Error ''TypeError'' ''boom''))]
          \<longrightarrow> out = Rejected (Error ''TypeError'' ''boom''))
     \<and> (\<forall>res who err. SettleThrows (invocationRef init_A + 1) res who err
            \<notin> set [Render callbacks_B, Settle 1 (Rejected (Error ''TypeError'' ''boom''))])
     \<and> exec [Render callbacks_B, Settle 1 (Rejected (Error ''TypeError'' ''boom''))]
          (run throwing_task None [] init_A) = Some t
     \<and> exec [Render callbacks_B, Settle 1 (Rejected (Error ''TypeError'' ''boom''))]
          (run pending_task None [] init_A) = Some u
     \<and> same_observable t u
     \<and> trace t = [FuncApply 1 [], SetStatus \<lparr> isRunning = True, result = None, error = None \<rparr>,
          OnStart ''startA'', ConsoleError (Error ''TypeError'' ''boom''),
          SetStatus \<lparr> isRunning = False, result = None, error = Some (Error ''TypeError'' ''boom'') \<rparr>,
          OnError ''errorB'' (Error ''TypeError'' ''boom''), OnFinally ''finallyB'']"
proof -
  let ?E = "Error ''TypeError'' ''boom''"
  let ?acts = "[Render callbacks_B, Settle 1 (Rejected ?E)] :: (nat, string, string) action list"
  have a: "exec [] (useAsyncTask None callbacks_A) = Some init_A"
    by (simp add: init_A_def)
  have i: "invocationRef init_A + 1 = 1"
    by (simp add: init_A_def useAsyncTask_def)
  have f: "throwing_task (invocationRef init_A + 1) [] = Throws ?E"
    by (simp add: throwing_task_def constant_task_def)
  have g: "pending_task (invocationRef init_A + 1) [] = ReturnsPromise Pending"
    by (simp add: pending_task_def constant_task_def)
  have h: "\<forall>out. Settle (invocationRef init_A + 1) out \<in> set ?acts \<longrightarrow> out = Rejected ?E"
    by (simp add: i)
  have h': "\<forall>res who err. SettleThrows (invocationRef init_A + 1) res who err \<notin> set ?acts"
    by simp
  obtain t where t: "exec ?acts (run throwing_task None [] init_A) = Some t"
    by (simp add: eval_defs throwing_task_def)
  obtain u where u: "exec ?acts (run pending_task None [] init_A) = Some u"
    by (simp add: eval_defs)
  have tr: "trace t = [FuncApply 1 [], SetStatus \<lparr> isRunning = True, result = None, error = None \<rparr>,
          OnStart ''startA'', ConsoleError ?E,
          SetStatus \<lparr> isRunning = False, result = None, error = Some ?E \<rparr>,
          OnError ''errorB'' ?E, OnFinally ''finallyB'']"
    using t by (auto simp: eval_defs throwing_task_def)
  from C5_synchronous_throw[where func = throwing_task and func' = pending_task and args = "[]"
      and s = init_A and pre = "[]" and runOnMount = None and cbs = callbacks_A
      and e = ?E and p = Pending and acts = ?acts and lr = None] a f g h h' t u tr
  show ?thesis by simp
qed

text \<open>
  C6. Let the task function return a falsy value in a call of \<^verbatim>\<open>run\<close>. Then the
  \<^verbatim>\<open>try\<close> block throws the error "Task function did not return a Promise!", and
  \<^verbatim>\<open>run\<close> does what it does for a task function returning a promise rejected with
  that error. The rejection can be delivered; and after any history, a settlement of
  this invocation is that rejection and none else (no fulfilment, whether the
  callbacks would return or throw), and commits the error status unless the
  invocation is superseded. No option of the hook enters.
\<close>

theorem C6_falsy_return:
  assumes "exec pre (useAsyncTask runOnMount cbs) = Some s0"
      and "func (invocationRef s0 + 1) args = ReturnsFalsy"
  shows "try_block (func (invocationRef s0 + 1) args)
           = Inl (Error ''Error'' ''Task function did not return a Promise!'')
       \<and> run func lr args s0
           = run (constant_task (ReturnsPromise (Settled (Rejected
               (Error ''Error'' ''Task function did not return a Promise!''))))) lr args s0
       \<and> settle (invocationRef s0 + 1)
            (Rejected (Error ''Error'' ''Task function did not return a Promise!''))
            (run func lr args s0) \<noteq> None
       \<and> (exec acts (run func lr args s0) = Some s \<longrightarrow>
          settle (invocationRef s0 + 1) out s = Some s' \<longrightarrow>
            out = Rejected (Error ''Error'' ''Task function did not return a Promise!'')
            \<and> (\<not> isCanceled (invocationRef s0 + 1) s \<longrightarrow>
                 status s' = \<lparr> isRunning = False, result = None,
                    error = Some (Error ''Error'' ''Task function did not return a Promise!'') \<rparr>))
       \<and> (exec acts (run func lr args s0) = Some s \<longrightarrow>
          settle_throws (invocationRef s0 + 1) res who err s = None)"
proof -
  let ?k = "invocationRef s0 + 1"
  let ?E = "Error ''Error'' ''Task function did not return a Promise!''"
  note wf = wf_reach[OF assms(1)]
  have look: "map_of (attached (run func lr args s0)) ?k = Some (lr, Settled (Rejected ?E))"
    using settle_run_falsy_aux[where func = func and args = args and lr = lr and ?s0.0 = s0] wf assms(2)
    by simp
  have A: "try_block (func ?k args) = Inl ?E"
    using assms(2) by (simp add: try_block_def)
  have B: "run func lr args s0 = run (constant_task (ReturnsPromise (Settled (Rejected ?E)))) lr args s0"
    using assms(2) by (simp add: run_def try_catch_def try_block_def constant_task_def Let_def)
  have C: "settle ?k (Rejected ?E) (run func lr args s0) \<noteq> None"
    using look by (simp add: settle_def)
  have D: "out = Rejected ?E \<and> (\<not> isCanceled ?k s \<longrightarrow>
                 status s' = \<lparr> isRunning = False, result = None, error = Some ?E \<rparr>)"
    if ex: "exec acts (run func lr args s0) = Some s" and st: "settle ?k out s = Some s'"
  proof -
    from st obtain lr' p where look': "map_of (attached s) ?k = Some (lr', p)"
      and p: "p = Pending \<or> p = Settled out"
      and s'_eq: "s' = react ?k lr' out (s\<lparr> attached := filter (\<lambda>c. fst c \<noteq> ?k) (attached s) \<rparr>)"
      by (auto elim: settle_SomeD)
    have "?k \<le> invocationRef (run func lr args s0)" by (simp add: run_fields)
    from exec_chain_old[OF ex this look'] look have "p = Settled (Rejected ?E)" by auto
    with p have out: "out = Rejected ?E" by simp
    with s'_eq show ?thesis
      by (simp add: catch_handler_fields isCanceled_def)
  qed
  have E: "settle_throws ?k res who err s = None"
    if ex: "exec acts (run func lr args s0) = Some s"
  proof (rule ccontr)
    assume "settle_throws ?k res who err s \<noteq> None"
    then obtain u where "settle_throws ?k res who err s = Some u" by auto
    then obtain lr' p where look': "map_of (attached s) ?k = Some (lr', p)"
      and p: "p = Pending \<or> p = Settled (Fulfilled res)"
      by (auto elim: settle_throws_SomeD)
    have "?k \<le> invocationRef (run func lr args s0)" by (simp add: run_fields)
    from exec_chain_old[OF ex this look'] look have "p = Settled (Rejected ?E)" by auto
    with p show False by simp
  qed
  from A B C D E show ?thesis by blast
qed

text \<open>The first invocation returns a falsy value; a fulfilment cannot be delivered.\<close>

theorem C6_witness:
  "\<exists>s'. exec [] (useAsyncTask None callbacks_A) = Some init_A
     \<and> falsy_task (invocationRef init_A + 1) [] = ReturnsFalsy
     \<and> exec [Render callbacks_B] (run falsy_task None [] init_A)
          = Some (refresh_callbacks callbacks_B (run falsy_task None [] init_A))
     \<and> settle 1 (Rejected (Error ''Error'' ''Task function did not return a Promise!''))
          (refresh_callbacks callbacks_B (run falsy_task None [] init_A)) = Some s'
     \<and> settle 1 (Fulfilled None) (refresh_callbacks callbacks_B (run falsy_task None [] init_A)) = None
     \<and> settle_throws 1 None ByOnComplete (Error ''Error'' ''D'')
          (refresh_callbacks callbacks_B (run falsy_task None [] init_A)) = None
     \<and> \<not> isCanceled 1 (refresh_callbacks callbacks_B (run falsy_task None [] init_A))
     \<and> status s' = \<lparr> isRunning = False, result = None,
          error = Some (Error ''Error'' ''Task function did not return a Promise!'') \<rparr>"
proof -
  let ?s = "refresh_callbacks callbacks_B (run falsy_task None [] init_A)"
  have a: "exec [] (useAsyncTask None callbacks_A) = Some init_A"
    by (simp add: init_A_def)
  have f: "falsy_task (invocationRef init_A + 1) [] = ReturnsFalsy"
    by (simp add: falsy_task_def constant_task_def)
  have b: "exec [Render callbacks_B] (run falsy_task None [] init_A) = Some ?s"
    by simp
  obtain s' where s': "settle 1 (Rejected (Error ''Error'' ''Task function did not return a Promise!'')) ?s = Some s'"
    by (simp add: eval_defs falsy_task_def)
  have n: "settle 1 (Fulfilled None) ?s = None"
    by (simp add: eval_defs falsy_task_def)
  have c: "\<not> isCanceled 1 ?s"
    by (simp add: eval_defs falsy_task_def)
  have i: "invocationRef init_A + 1 = 1"
    by (simp add: init_A_def useAsyncTask_def)
  note inst = C6_falsy_return[where func = falsy_task and args = "[]" and pre = "[]" and ?s0.0 = init_A
      and runOnMount = None and cbs = callbacks_A
      and lr = None and acts = "[Render callbacks_B]" and s = ?s
      and out = "Rejected (Error ''Error'' ''Task function did not return a Promise!'')" and s' = s'
      and res = None and who = ByOnComplete and err = "Error ''Error'' ''D''", OF a f, unfolded i]
  from inst b s' c have st: "status s' = \<lparr> isRunning = False, result = None,
          error = Some (Error ''Error'' ''Task function did not return a Promise!'') \<rparr>"
    by blast
  from inst b have nt: "settle_throws 1 None ByOnComplete (Error ''Error'' ''D'') ?s = None"
    by blast
  from a f b s' n c st nt show ?thesis by blast
qed




text \<open>
  C8. After any history, \<^verbatim>\<open>callbacksRef\<close> holds the callbacks of the last render. A
  call of \<^verbatim>\<open>run\<close> then calls that \<open>onStart\<close>, and the reaction of a chain that is
  not superseded calls that \<open>onComplete\<close>, \<open>onError\<close> and \<open>onFinally\<close>, whatever
  the callbacks were when the invocation began; so it is also when \<open>onComplete\<close> or
  \<open>onFinally\<close> throws in the \<^verbatim>\<open>.then\<close> handler.
\<close>

theorem C8_latest_callbacks:
  assumes "exec acts (useAsyncTask runOnMount cbs) = Some s"
  shows "callbacksRef s = latest_callbacks acts cbs
       \<and> trace (run func lr args s) =
           trace s @ [FuncApply (invocationRef s + 1) args,
                      SetStatus \<lparr> isRunning = True, result = None, error = None \<rparr>]
             @ calls (onStart (latest_callbacks acts cbs)) OnStart
       \<and> (settle k (Fulfilled res) s = Some s' \<longrightarrow> \<not> isCanceled k s \<longrightarrow>
            trace s' = trace s @ SetStatus (status s')
              # calls (onComplete (latest_callbacks acts cbs)) (\<lambda>c. OnComplete c res)
              @ calls (onFinally (latest_callbacks acts cbs)) OnFinally)
       \<and> (settle k (Rejected err) s = Some s'' \<longrightarrow> \<not> isCanceled k s \<longrightarrow>
            trace s'' = trace s @ ConsoleError err # SetStatus (status s'')
              # calls (onError (latest_callbacks acts cbs)) (\<lambda>c. OnError c err)
              @ calls (onFinally (latest_callbacks acts cbs)) OnFinally)
       \<and> (settle_throws k res who thrown s = Some u \<longrightarrow>
            trace u = trace s @ SetStatus (status u)
              # calls (onComplete (latest_callbacks acts cbs)) (\<lambda>c. OnComplete c res)
              @ (case who of
                   ByOnComplete \<Rightarrow> []
                 | ByOnFinally \<Rightarrow> calls (onFinally (latest_callbacks acts cbs)) OnFinally))"
proof -
  have cb: "callbacksRef s = latest_callbacks acts cbs"
    using exec_callbacks[OF assms] by (simp add: useAsyncTask_def)
  have A: "trace s' = trace s @ SetStatus (status s')
              # calls (onComplete (latest_callbacks acts cbs)) (\<lambda>c. OnComplete c res)
              @ calls (onFinally (latest_callbacks acts cbs)) OnFinally"
    if "settle k (Fulfilled res) s = Some s'" "\<not> isCanceled k s"
    using that cb by (auto elim!: settle_SomeD simp: then_handler_fields isCanceled_def)
  have B: "trace s'' = trace s @ ConsoleError err # SetStatus (status s'')
              # calls (onError (latest_callbacks acts cbs)) (\<lambda>c. OnError c err)
              @ calls (onFinally (latest_callbacks acts cbs)) OnFinally"
    if "settle k (Rejected err) s = Some s''" "\<not> isCanceled k s"
    using that cb by (auto elim!: settle_SomeD simp: catch_handler_fields isCanceled_def)
  have C: "trace u = trace s @ SetStatus (status u)
              # calls (onComplete (latest_callbacks acts cbs)) (\<lambda>c. OnComplete c res)
              @ (case who of
                   ByOnComplete \<Rightarrow> []
                 | ByOnFinally \<Rightarrow> calls (onFinally (latest_callbacks acts cbs)) OnFinally)"
    if st: "settle_throws k res who thrown s = Some u"
  proof -
    from st obtain lr s1 where th: "then_handler_throws k lr res who s = Some s1"
      and u: "u = s1\<lparr> attached := map (reject_chain k thrown) (attached s1) \<rparr>"
      by (auto elim: settle_throws_SomeD)
    from then_handler_throws_SomeD(2,6)[OF th] u cb show ?thesis by (cases who) simp_all
  qed
  from cb A B C show ?thesis
    by (simp add: run_fields running_status_def)
qed

text \<open>The callbacks change between \<^verbatim>\<open>run\<close> and the settlement.\<close>

theorem C8_witness:
  "\<exists>s s' s'' u. exec [Run pending_task None [], Render callbacks_B] (useAsyncTask None callbacks_A) = Some s
     \<and> latest_callbacks [Run pending_task None [], Render callbacks_B] callbacks_A = callbacks_B
     \<and> settle 1 (Fulfilled (Some ''x'')) s = Some s'
     \<and> settle 1 (Rejected (Error ''Error'' ''y'')) s = Some s''
     \<and> \<not> isCanceled 1 s
     \<and> trace s' = trace s @ [SetStatus \<lparr> isRunning = False, result = Some ''x'', error = None \<rparr>,
          OnComplete ''completeB'' (Some ''x''), OnFinally ''finallyB'']
     \<and> trace s'' = trace s @ [ConsoleError (Error ''Error'' ''y''),
          SetStatus \<lparr> isRunning = False, result = None, error = Some (Error ''Error'' ''y'') \<rparr>,
          OnError ''errorB'' (Error ''Error'' ''y''), OnFinally ''finallyB'']
     \<and> settle_throws 1 (Some ''x'') ByOnFinally (Error ''Error'' ''z'') s = Some u
     \<and> trace u = trace s @ [SetStatus \<lparr> isRunning = False, result = Some ''x'', error = None \<rparr>,
          OnComplete ''completeB'' (Some ''x''), OnFinally ''finallyB'']
     \<and> trace s = [FuncApply 1 [], SetStatus \<lparr> isRunning = True, result = None, error = None \<rparr>,
          OnStart ''startA'']"
proof -
  define s where "s = refresh_callbacks callbacks_B (run pending_task None [] init_A)"
  have a: "exec [Run pending_task None [], Render callbacks_B] (useAsyncTask None callbacks_A) = Some s"
    by (simp add: s_def init_A_def)
  have l: "latest_callbacks [Run pending_task None [], Render callbacks_B] callbacks_A = callbacks_B"
    by simp
  obtain s' where s': "settle 1 (Fulfilled (Some ''x'')) s = Some s'"
    by (simp add: s_def eval_defs)
  obtain s'' where s'': "settle 1 (Rejected (Error ''Error'' ''y'')) s = Some s''"
    by (simp add: s_def eval_defs)
  have c: "\<not> isCanceled 1 s"
    by (simp add: s_def eval_defs)
  obtain u where u: "settle_throws 1 (Some ''x'') ByOnFinally (Error ''Error'' ''z'') s = Some u"
    by (simp add: s_def eval_defs)
  have st: "status s' = \<lparr> isRunning = False, result = Some ''x'', error = None \<rparr>"
    "status s'' = \<lparr> isRunning = False, result = None, error = Some (Error ''Error'' ''y'') \<rparr>"
    "status u = \<lparr> isRunning = False, result = Some ''x'', error = None \<rparr>"
    using s' s'' u by (auto simp: s_def eval_defs)
  have tr: "trace s = [FuncApply 1 [], SetStatus \<lparr> isRunning = True, result = None, error = None \<rparr>,
          OnStart ''startA'']"
    by (simp add: s_def eval_defs)
  from C8_latest_callbacks[OF a, where k = 1 and res = "Some ''x''" and s' = s'
      and err = "Error ''Error'' ''y''" and s'' = s''
      and who = ByOnFinally and thrown = "Error ''Error'' ''z''" and u = u]
    a l s' s'' u c st tr
  show ?thesis by (simp add: callbacks_B_def)
qed

text \<open>
  C9. \<^verbatim>\<open>run\<close> and \<^verbatim>\<open>cancel\<close> add one to the counter. Along every history the
  values that the counter takes at these operations increase strictly from its value
  at the start, so none occurs twice; no operation lowers the counter, so an
  invocation that is superseded stays so. In a state that a controller reaches, the
  generations that the task function has been called with increase strictly and none
  exceeds the counter.
\<close>

theorem C9_generation_counter:
  "invocationRef (run func lr args s) = invocationRef s + 1
   \<and> invocationRef (cancel s) = invocationRef s + 1
   \<and> sorted_wrt (<) (invocationRef s # counter_values acts s)
   \<and> distinct (invocationRef s # counter_values acts s)
   \<and> (exec acts s = Some s' \<longrightarrow>
        invocationRef s \<le> invocationRef s' \<and> (isCanceled k s \<longrightarrow> isCanceled k s'))
   \<and> (exec acts (useAsyncTask runOnMount cbs) = Some s' \<longrightarrow>
        sorted_wrt (<) (invocations (trace s'))
        \<and> (\<forall>i \<in> set (invocations (trace s')). i \<le> invocationRef s'))"
proof -
  have A: "sorted_wrt (<) (invocationRef s # counter_values acts s)"
    using counter_values_gt[of acts s] by simp
  then have B: "distinct (invocationRef s # counter_values acts s)"
    using strict_sorted_iff by blast
  have C: "invocationRef s \<le> invocationRef s' \<and> (isCanceled k s \<longrightarrow> isCanceled k s')"
    if "exec acts s = Some s'"
    using exec_mono[OF that] by (auto simp: isCanceled_def)
  have D: "sorted_wrt (<) (invocations (trace s'))
        \<and> (\<forall>i \<in> set (invocations (trace s')). i \<le> invocationRef s')"
    if "exec acts (useAsyncTask runOnMount cbs) = Some s'"
    using exec_invocations[OF that] by (simp add: useAsyncTask_def)
  from A B C D show ?thesis
    by (simp add: run_fields cancel_fields)
qed

text \<open>A history of two runs, a cancel, a render and a settlement.\<close>

theorem C9_witness:
  "\<exists>s'. exec [Run pending_task None [], Cancel, Render callbacks_B, Run pending_task None [],
            Settle 1 (Fulfilled None)] (useAsyncTask None callbacks_A) = Some s'
     \<and> counter_values [Run pending_task None [], Cancel, Render callbacks_B, Run pending_task None [],
            Settle 1 (Fulfilled None)] init_A = [1, 2, 3]
     \<and> invocationRef s' = 3
     \<and> invocations (trace s') = [1, 3]
     \<and> sorted_wrt (<) (invocations (trace s'))
     \<and> 1 \<in> set (invocations (trace s'))
     \<and> isCanceled 1 s'
     \<and> exec [Cancel] (run pending_task None [] init_A) = Some (cancel (run pending_task None [] init_A))
     \<and> \<not> isCanceled 1 (run pending_task None [] init_A)
     \<and> isCanceled 0 (run pending_task None [] init_A)
     \<and> isCanceled 0 (cancel (run pending_task None [] init_A))"
proof -
  let ?acts = "[Run pending_task None [], Cancel, Render callbacks_B, Run pending_task None [],
            Settle 1 (Fulfilled None)] :: (nat, string, string) action list"
  obtain s' where s': "exec ?acts (useAsyncTask None callbacks_A) = Some s'"
    by (simp add: eval_defs)
  have cv: "counter_values ?acts init_A = [1, 2, 3]"
    by (simp add: eval_defs)
  have tr: "invocationRef s' = 3" "invocations (trace s') = [1, 3]"
    using s' by (auto simp: eval_defs)
  have b: "exec [Cancel] (run pending_task None [] init_A) = Some (cancel (run pending_task None [] init_A))"
    by simp
  have c: "isCanceled 0 (run pending_task None [] init_A)" "\<not> isCanceled 1 (run pending_task None [] init_A)"
    by (simp_all add: isCanceled_def run_fields init_A_def useAsyncTask_def)
  from C9_generation_counter[where acts = ?acts and s = init_A and s' = s'
      and runOnMount = None and cbs = callbacks_A]
    C9_generation_counter[where acts = "[Cancel]" and s = "run pending_task None [] init_A"
      and s' = "cancel (run pending_task None [] init_A)" and k = 0]
    s' cv tr b c
  show ?thesis by (simp add: init_A_def isCanceled_def)
qed


end
